theory Spec2Isabelle
  imports Complex_Main "HOL-Library.AList"
begin

section \<open>The axis servo execution layer (servo_controller.py)\<close>

text \<open>
  The embedding follows \<^verbatim>\<open>servo_controller.py\<close>. Python's unbounded integers are
  \<^typ>\<open>int\<close>. Python's floats are modelled by \<^typ>\<open>real\<close>: every float operation
  is taken as exact and there is neither infinity nor NaN, which is what the source
  computes whenever the values involved are exactly representable (integers below
  \<open>2^53\<close> in magnitude, small dyadic fractions); the concrete inputs used below are
  of that kind. The object \<^verbatim>\<open>self\<close>, the serial bus and the wall clock are one explicit
  state that every operation takes and returns; an exception is a value of the type
  \<open>error\<close>, returned together with the state the exception leaves behind.
\<close>

subsection \<open>Configuration, errors, bus traffic\<close>

record DxlConfig =
  device :: string
  baudrate :: int
  protocol :: real
  ids :: "int list"
  ticks_per_rev :: int
  addr_operating_mode :: int
  addr_torque_enable :: int
  addr_goal_position :: int
  addr_present_position :: int
  addr_present_current :: int
  mode_extended_position :: int

datatype error =
    BulkReadFailed int             \<comment> \<open>RuntimeError("BulkRead failed: ..."), with the comm code\<close>
  | PresentPositionNotAvailable int  \<comment> \<open>RuntimeError("PresentPosition not available for ID ...")\<close>
  | SyncWriteAddParamFailed int    \<comment> \<open>RuntimeError("SyncWrite addParam failed for ID ...")\<close>
  | SyncWriteFailed int            \<comment> \<open>RuntimeError("SyncWrite failed: ..."), with the comm code\<close>
  | KeyError int                   \<comment> \<open>a dictionary lookup of a missing axis\<close>
  | ValueError                     \<comment> \<open>\<^verbatim>\<open>max()\<close> of an empty sequence, a bad reset mode\<close>
  | ZeroDivisionError

text \<open>
  What the code sends on the bus, in the order it sends it: a one-byte register write
  (\<^verbatim>\<open>write1ByteTxRx(port, id, address, value)\<close>), a bulk read with the parameters
  added by \<^verbatim>\<open>addParam(id, address, length)\<close>, and a sync write of one address and
  length with the per-axis byte parameters.
\<close>

datatype packet =
    Write1Byte int int int
  | BulkRead "(int \<times> int \<times> int) list"
  | SyncWrite int int "(int \<times> int list) list"

text \<open>
  The answer of the bus to one bulk read: the comm code of \<^verbatim>\<open>txRxPacket\<close> and, for an
  axis, an address and a length, the raw data when \<^verbatim>\<open>isAvailable\<close> holds.
\<close>

record bulk_reply =
  comm :: int
  data :: "int \<Rightarrow> int \<Rightarrow> int \<Rightarrow> int option"

definition COMM_SUCCESS :: int where
  "COMM_SUCCESS = 0"

definition LEN_4 :: int where
  "LEN_4 = 4"

definition LEN_2 :: int where
  "LEN_2 = 2"

definition TORQUE_ENABLE :: int where
  "TORQUE_ENABLE = 1"

definition TORQUE_DISABLE :: int where
  "TORQUE_DISABLE = 0"

text \<open>
  The controller object with its environment. \<open>cmd_ticks\<close>, \<open>last_present_ticks\<close>,
  \<open>last_present_current\<close>, \<open>connected\<close> and \<open>supports_current\<close> are the attributes of
  \<^verbatim>\<open>AxisServo\<close> (\<open>supports_current\<close> is the tri-state \<^verbatim>\<open>Optional[bool]\<close>). The
  environment: \<open>bus_log\<close> is every packet sent so far; the \<open>n\<close>-th bulk read of the
  session is answered by \<open>bus_replies n\<close> and the \<open>n\<close>-th sync write transmission
  returns the comm code \<open>sync_results n\<close>; the \<open>n\<close>-th call of \<^verbatim>\<open>time.time()\<close>
  returns \<open>clock n\<close>. \<^verbatim>\<open>time.sleep\<close> changes nothing but the clock, whose readings
  are already given by \<open>clock\<close>; \<open>sleep_log\<close> keeps the durations it was called with.
\<close>

record servo =
  cfg :: DxlConfig
  cmd_ticks :: "int \<rightharpoonup> int"
  last_present_ticks :: "int \<rightharpoonup> int option"
  last_present_current :: "int \<rightharpoonup> int option"
  connected :: bool
  supports_current :: "bool option"
  bus_log :: "packet list"
  bus_replies :: "nat \<Rightarrow> bulk_reply"
  bus_reads :: nat
  sync_results :: "nat \<Rightarrow> int"
  sync_writes :: nat
  clock :: "nat \<Rightarrow> real"
  clock_reads :: nat
  sleep_log :: "real list"

text \<open>\<^verbatim>\<open>AxisServo.__init__\<close>: every configured axis commands 0 and has no reading yet.\<close>

definition init :: "DxlConfig \<Rightarrow> (nat \<Rightarrow> bulk_reply) \<Rightarrow> (nat \<Rightarrow> int) \<Rightarrow> (nat \<Rightarrow> real) \<Rightarrow> servo" where
  "init c replies results clk =
     \<lparr> cfg = c,
       cmd_ticks = map_of (map (\<lambda>i. (i, 0)) (ids c)),
       last_present_ticks = map_of (map (\<lambda>i. (i, None)) (ids c)),
       last_present_current = map_of (map (\<lambda>i. (i, None)) (ids c)),
       connected = False,
       supports_current = None,
       bus_log = [],
       bus_replies = replies,
       bus_reads = 0,
       sync_results = results,
       sync_writes = 0,
       clock = clk,
       clock_reads = 0,
       sleep_log = [] \<rparr>"

subsection \<open>Conversions\<close>

definition int32 :: "int \<Rightarrow> int" where
  "int32 x = (let y = x mod 4294967296 in if 2147483648 \<le> y then y - 4294967296 else y)"

definition i16 :: "int \<Rightarrow> int" where
  "i16 x = (let y = x mod 65536 in if 32768 \<le> y then y - 65536 else y)"

definition u32 :: "int \<Rightarrow> int" where
  "u32 x = x mod 4294967296"

text \<open>Python's \<^verbatim>\<open>round\<close> of a float: to the nearest integer, a tie to the even one.\<close>

definition py_round :: "real \<Rightarrow> int" where
  "py_round x =
     (let f = \<lfloor>x\<rfloor>; d = x - of_int f
      in if d < 1 / 2 then f else if 1 / 2 < d then f + 1 else if even f then f else f + 1)"

text \<open>Python's \<^verbatim>\<open>int\<close> of a float: truncation towards zero.\<close>

definition py_int :: "real \<Rightarrow> int" where
  "py_int x = (if 0 \<le> x then \<lfloor>x\<rfloor> else \<lceil>x\<rceil>)"

definition deg_to_ticks :: "DxlConfig \<Rightarrow> real \<Rightarrow> int" where
  "deg_to_ticks c deg = py_round (deg * of_int (ticks_per_rev c) / 360)"

definition ticks_to_deg :: "DxlConfig \<Rightarrow> int \<Rightarrow> error + real" where
  "ticks_to_deg c ticks =
     (if ticks_per_rev c = 0 then Inl ZeroDivisionError
      else Inr (of_int ticks * 360 / of_int (ticks_per_rev c)))"

definition clamp32 :: "int \<Rightarrow> int" where
  "clamp32 t = max (- 2147483648) (min 2147483647 t)"

subsection \<open>Mode switching\<close>

definition write1ByteTxRx :: "int \<Rightarrow> int \<Rightarrow> int \<Rightarrow> servo \<Rightarrow> servo" where
  "write1ByteTxRx dxl_id addr v s = s\<lparr>bus_log := bus_log s @ [Write1Byte dxl_id addr v]\<rparr>"

text \<open>The body of the loop of \<^verbatim>\<open>ensure_extended_mode\<close> for one axis.\<close>

definition extended_mode_axis :: "int \<Rightarrow> servo \<Rightarrow> servo" where
  "extended_mode_axis dxl_id s =
     (let s1 = write1ByteTxRx dxl_id (addr_torque_enable (cfg s)) TORQUE_DISABLE s;
          s2 = write1ByteTxRx dxl_id (addr_operating_mode (cfg s1)) (mode_extended_position (cfg s1)) s1
      in write1ByteTxRx dxl_id (addr_torque_enable (cfg s2)) TORQUE_ENABLE s2)"

text \<open>\<^verbatim>\<open>ids = ids or self.cfg.ids\<close>: \<^verbatim>\<open>None\<close> and the empty list both give the configured axes.\<close>

definition ids_or_cfg :: "int list option \<Rightarrow> servo \<Rightarrow> int list" where
  "ids_or_cfg ids_arg s =
     (case ids_arg of None \<Rightarrow> ids (cfg s) | Some [] \<Rightarrow> ids (cfg s) | Some (i # rest) \<Rightarrow> i # rest)"

definition ensure_extended_mode :: "int list option \<Rightarrow> servo \<Rightarrow> servo" where
  "ensure_extended_mode ids_arg s = fold extended_mode_axis (ids_or_cfg ids_arg s) s"

text \<open>The three writes of one axis, as packets.\<close>

definition mode_triple :: "DxlConfig \<Rightarrow> int \<Rightarrow> packet list" where
  "mode_triple c dxl_id =
     [Write1Byte dxl_id (addr_torque_enable c) TORQUE_DISABLE,
      Write1Byte dxl_id (addr_operating_mode c) (mode_extended_position c),
      Write1Byte dxl_id (addr_torque_enable c) TORQUE_ENABLE]"

subsection \<open>The command state\<close>

text \<open>
  A dictionary argument is the list of its items in iteration order. A lookup
  \<^verbatim>\<open>self.cmd_ticks[dxl_id]\<close> of an axis that has no entry raises \<^verbatim>\<open>KeyError\<close>; the
  entries written before the exception stay written.
\<close>

fun set_targets_abs_deg :: "(int \<times> real) list \<Rightarrow> servo \<Rightarrow> servo" where
  "set_targets_abs_deg [] s = s"
| "set_targets_abs_deg ((dxl_id, deg) # rest) s =
     (let t = deg_to_ticks (cfg s) deg;
          t = clamp32 t
      in set_targets_abs_deg rest (s\<lparr>cmd_ticks := (cmd_ticks s)(dxl_id \<mapsto> t)\<rparr>))"

fun nudge_rel_deg :: "(int \<times> real) list \<Rightarrow> servo \<Rightarrow> (error + unit) \<times> servo" where
  "nudge_rel_deg [] s = (Inr (), s)"
| "nudge_rel_deg ((dxl_id, ddeg) # rest) s =
     (let dt = deg_to_ticks (cfg s) ddeg
      in case cmd_ticks s dxl_id of
           None \<Rightarrow> (Inl (KeyError dxl_id), s)
         | Some c \<Rightarrow>
             (let t = c + dt;
                  t = clamp32 t
              in nudge_rel_deg rest (s\<lparr>cmd_ticks := (cmd_ticks s)(dxl_id \<mapsto> t)\<rparr>)))"

subsection \<open>Bulk read\<close>

text \<open>The loop reading the required positions: the first unavailable one raises.\<close>

fun read_positions :: "DxlConfig \<Rightarrow> bulk_reply \<Rightarrow> int list \<Rightarrow> (int \<rightharpoonup> int) \<Rightarrow> error + (int \<rightharpoonup> int)" where
  "read_positions c r [] pos = Inr pos"
| "read_positions c r (dxl_id # rest) pos =
     (case data r dxl_id (addr_present_position c) LEN_4 of
        None \<Rightarrow> Inl (PresentPositionNotAvailable dxl_id)
      | Some raw_pos \<Rightarrow> read_positions c r rest (pos(dxl_id \<mapsto> int32 raw_pos)))"

text \<open>The loop reading the optional currents; the flag is \<^verbatim>\<open>ok_all\<close>.\<close>

fun read_currents ::
  "DxlConfig \<Rightarrow> bulk_reply \<Rightarrow> int list \<Rightarrow> (int \<rightharpoonup> int option) \<times> bool \<Rightarrow> (int \<rightharpoonup> int option) \<times> bool" where
  "read_currents c r [] (cur, ok_all) = (cur, ok_all)"
| "read_currents c r (dxl_id # rest) (cur, ok_all) =
     (case data r dxl_id (addr_present_current c) LEN_2 of
        Some raw_cur \<Rightarrow> read_currents c r rest (cur(dxl_id \<mapsto> Some (i16 raw_cur)), ok_all)
      | None \<Rightarrow> read_currents c r rest (cur, False))"

text \<open>\<^verbatim>\<open>d.update(e)\<close> on dictionaries as maps.\<close>

definition dict_update :: "('k \<rightharpoonup> 'v) \<Rightarrow> ('k \<rightharpoonup> 'v) \<Rightarrow> ('k \<rightharpoonup> 'v)" where
  "dict_update d e = (\<lambda>k. case e k of Some v \<Rightarrow> Some v | None \<Rightarrow> d k)"

definition bulk_read ::
  "bool \<Rightarrow> servo \<Rightarrow> (error + ((int \<rightharpoonup> int) \<times> (int \<rightharpoonup> int option))) \<times> servo" where
  "bulk_read want_current s =
     (let c = cfg s;
          pos_params = map (\<lambda>i. (i, addr_present_position c, LEN_4)) (ids c);
          want_current = (if want_current then (if supports_current s = Some False then False else True) else False);
          cur_params = (if want_current then map (\<lambda>i. (i, addr_present_current c, LEN_2)) (ids c) else []);
          r = bus_replies s (bus_reads s);
          s1 = s\<lparr>bus_log := bus_log s @ [BulkRead (pos_params @ cur_params)],
                 bus_reads := Suc (bus_reads s)\<rparr>
      in if comm r \<noteq> COMM_SUCCESS then (Inl (BulkReadFailed (comm r)), s1)
         else
           (case read_positions c r (ids c) Map.empty of
              Inl e \<Rightarrow> (Inl e, s1)
            | Inr pos \<Rightarrow>
                (let cur0 = map_of (map (\<lambda>i. (i, None)) (ids c));
                     (cur, ok_all) = (if want_current then read_currents c r (ids c) (cur0, True)
                                      else (cur0, True));
                     sup = (if want_current \<and> supports_current s = None then Some ok_all
                            else supports_current s);
                     s2 = s1\<lparr>supports_current := sup,
                             last_present_ticks := dict_update (last_present_ticks s1) (map_option Some \<circ> pos),
                             last_present_current := dict_update (last_present_current s1) cur\<rparr>
                 in (Inr (pos, cur), s2))))"

subsection \<open>Sync write\<close>

text \<open>The byte macros of the bus library.\<close>

definition DXL_LOWORD :: "int \<Rightarrow> int" where
  "DXL_LOWORD l = l mod 65536"

definition DXL_HIWORD :: "int \<Rightarrow> int" where
  "DXL_HIWORD l = (l div 65536) mod 65536"

definition DXL_LOBYTE :: "int \<Rightarrow> int" where
  "DXL_LOBYTE w = w mod 256"

definition DXL_HIBYTE :: "int \<Rightarrow> int" where
  "DXL_HIBYTE w = (w div 256) mod 256"

definition goal_param :: "int \<Rightarrow> int list" where
  "goal_param g =
     (let u = u32 g
      in [DXL_LOBYTE (DXL_LOWORD u), DXL_HIBYTE (DXL_LOWORD u),
          DXL_LOBYTE (DXL_HIWORD u), DXL_HIBYTE (DXL_HIWORD u)])"

text \<open>
  The loop over the goals: \<^verbatim>\<open>addParam\<close> of the bus library refuses an axis that was
  added before, which the items of a dictionary never are.
\<close>

fun add_params :: "(int \<times> int) list \<Rightarrow> (int \<times> int list) list \<Rightarrow> error + (int \<times> int list) list" where
  "add_params [] acc = Inr acc"
| "add_params ((dxl_id, g) # rest) acc =
     (if dxl_id \<in> fst ` set acc then Inl (SyncWriteAddParamFailed dxl_id)
      else add_params rest (acc @ [(dxl_id, goal_param g)]))"

definition sync_write_goal_positions :: "(int \<times> int) list \<Rightarrow> servo \<Rightarrow> (error + unit) \<times> servo" where
  "sync_write_goal_positions goal_ticks s =
     (case add_params goal_ticks [] of
        Inl e \<Rightarrow> (Inl e, s)
      | Inr params \<Rightarrow>
          (let r = sync_results s (sync_writes s);
               s1 = s\<lparr>bus_log := bus_log s @ [SyncWrite (addr_goal_position (cfg s)) LEN_4 params],
                      sync_writes := Suc (sync_writes s)\<rparr>
           in if r \<noteq> COMM_SUCCESS then (Inl (SyncWriteFailed r), s1) else (Inr (), s1)))"

subsection \<open>Time-synced execution\<close>

text \<open>The keyword arguments of \<^verbatim>\<open>execute_time_synced\<close> and the dictionary it returns.\<close>

record exec_args =
  duration_s :: real
  poll_hz :: int
  eps_deg :: real
  settle_n :: int
  timeout_factor :: real
  smoothstep :: bool
  current_guard :: "(int \<times> int) option"
  log :: bool

record MotionResult =
  settled :: bool
  start_pos :: "int \<rightharpoonup> int"
  start_current :: "int \<rightharpoonup> int option"
  goal :: "int \<rightharpoonup> int"
  final_pos :: "int \<rightharpoonup> int"
  final_current :: "int \<rightharpoonup> int option"
  max_err_ticks :: "int option"
  max_err_deg :: "real option"

text \<open>One call of \<^verbatim>\<open>time.time()\<close>, one call of \<^verbatim>\<open>time.sleep\<close>.\<close>

definition now :: "servo \<Rightarrow> real \<times> servo" where
  "now s = (clock s (clock_reads s), s\<lparr>clock_reads := Suc (clock_reads s)\<rparr>)"

definition sleep :: "real \<Rightarrow> servo \<Rightarrow> servo" where
  "sleep d s = s\<lparr>sleep_log := sleep_log s @ [d]\<rparr>"

text \<open>\<^verbatim>\<open>goal = {i: self.cmd_ticks[i] for i in self.cfg.ids}\<close>\<close>

fun goal_dict :: "(int \<rightharpoonup> int) \<Rightarrow> int list \<Rightarrow> (int \<rightharpoonup> int) \<Rightarrow> error + (int \<rightharpoonup> int)" where
  "goal_dict cmd [] g = Inr g"
| "goal_dict cmd (i # rest) g =
     (case cmd i of
        None \<Rightarrow> Inl (KeyError i)
      | Some t \<Rightarrow> goal_dict cmd rest (g(i \<mapsto> t)))"

definition steps_of :: "exec_args \<Rightarrow> int" where
  "steps_of p = max 1 (py_int (duration_s p * of_int (poll_hz p)))"

definition dt_of :: "exec_args \<Rightarrow> real" where
  "dt_of p = duration_s p / of_int (steps_of p)"

definition eps_ticks_of :: "DxlConfig \<Rightarrow> exec_args \<Rightarrow> int" where
  "eps_ticks_of c p = \<bar>deg_to_ticks c (eps_deg p)\<bar>"

definition shape :: "bool \<Rightarrow> real \<Rightarrow> real" where
  "shape smooth a = (if \<not> smooth then a else a * a * (3 - 2 * a))"

definition waypoint :: "int \<Rightarrow> int \<Rightarrow> real \<Rightarrow> int" where
  "waypoint start g a = py_round (of_int start + of_int (g - start) * a)"

text \<open>
  \<^verbatim>\<open>mid = {i: int(round(...)) for i in self.cfg.ids}\<close>, as the items of the dictionary
  in insertion order: an axis listed twice keeps its first place.
\<close>

fun mid_dict ::
  "(int \<rightharpoonup> int) \<Rightarrow> (int \<rightharpoonup> int) \<Rightarrow> real \<Rightarrow> int list \<Rightarrow> (int \<times> int) list \<Rightarrow> error + (int \<times> int) list" where
  "mid_dict sp g a [] mid = Inr mid"
| "mid_dict sp g a (i # rest) mid =
     (case sp i of
        None \<Rightarrow> Inl (KeyError i)
      | Some p0 \<Rightarrow>
          (case g i of
             None \<Rightarrow> Inl (KeyError i)
           | Some gi \<Rightarrow> mid_dict sp g a rest (AList.update i (waypoint p0 gi a) mid)))"

text \<open>
  \<^verbatim>\<open>bad = [i for i in ids if (cur[i] is not None and (cur[i] < mn or cur[i] > mx))]\<close>
\<close>

fun guard_bad :: "(int \<rightharpoonup> int option) \<Rightarrow> int \<Rightarrow> int \<Rightarrow> int list \<Rightarrow> error + int list" where
  "guard_bad cur mn mx [] = Inr []"
| "guard_bad cur mn mx (i # rest) =
     (case cur i of
        None \<Rightarrow> Inl (KeyError i)
      | Some ci \<Rightarrow>
          (case guard_bad cur mn mx rest of
             Inl e \<Rightarrow> Inl e
           | Inr bad \<Rightarrow>
               (case ci of
                  None \<Rightarrow> Inr bad
                | Some v \<Rightarrow> if v < mn \<or> v > mx then Inr (i # bad) else Inr bad)))"

text \<open>The optional guard of step \<open>k\<close>; the result says whether the loop breaks.\<close>

definition guard_check :: "exec_args \<Rightarrow> int \<Rightarrow> servo \<Rightarrow> (error + bool) \<times> servo" where
  "guard_check p k s =
     (case current_guard p of
        None \<Rightarrow> (Inr False, s)
      | Some (mn, mx) \<Rightarrow>
          if k mod max 1 (poll_hz p div 10) = 0 then
            (case bulk_read True s of
               (Inl e, s1) \<Rightarrow> (Inl e, s1)
             | (Inr (pos, cur), s1) \<Rightarrow>
                 (case guard_bad cur mn mx (ids (cfg s1)) of
                    Inl e \<Rightarrow> (Inl e, s1)
                  | Inr bad \<Rightarrow> (Inr (bad \<noteq> []), s1)))
          else (Inr False, s))"

text \<open>\<^verbatim>\<open>spent = time.time() - t0\<close> and the sleep up to \<open>k * dt\<close>.\<close>

definition keep_timing :: "real \<Rightarrow> real \<Rightarrow> int \<Rightarrow> servo \<Rightarrow> servo" where
  "keep_timing t0 dt k s =
     (case now s of
        (t, s1) \<Rightarrow>
          (let spent = t - t0;
               target = of_int k * dt;
               sleep_s = target - spent
           in if sleep_s > 0 then sleep sleep_s s1 else s1))"

text \<open>
  The body of the streaming loop for one \<open>k\<close>. The result \<open>True\<close> is the \<^verbatim>\<open>break\<close> of
  the guard.
\<close>

definition stream_step ::
  "exec_args \<Rightarrow> int \<Rightarrow> real \<Rightarrow> real \<Rightarrow> (int \<rightharpoonup> int) \<Rightarrow> (int \<rightharpoonup> int) \<Rightarrow> int \<Rightarrow> servo \<Rightarrow> (error + bool) \<times> servo" where
  "stream_step p steps dt t0 sp g k s =
     (let alpha = of_int k / of_int steps;
          a = shape (smoothstep p) alpha
      in case mid_dict sp g a (ids (cfg s)) [] of
           Inl e \<Rightarrow> (Inl e, s)
         | Inr mid \<Rightarrow>
             (case sync_write_goal_positions mid s of
                (Inl e, s1) \<Rightarrow> (Inl e, s1)
              | (Inr u, s1) \<Rightarrow>
                  (case guard_check p k s1 of
                     (Inl e, s2) \<Rightarrow> (Inl e, s2)
                   | (Inr True, s2) \<Rightarrow> (Inr True, s2)
                   | (Inr False, s2) \<Rightarrow> (Inr False, keep_timing t0 dt k s2))))"

text \<open>
  The streaming loop over the remaining values of \<open>k\<close>: \<open>True\<close> when the guard broke
  it, \<open>False\<close> when the range is exhausted.
\<close>

fun stream_loop ::
  "exec_args \<Rightarrow> int \<Rightarrow> real \<Rightarrow> real \<Rightarrow> (int \<rightharpoonup> int) \<Rightarrow> (int \<rightharpoonup> int) \<Rightarrow> int list \<Rightarrow> servo \<Rightarrow> (error + bool) \<times> servo" where
  "stream_loop p steps dt t0 sp g [] s = (Inr False, s)"
| "stream_loop p steps dt t0 sp g (k # ks) s =
     (case stream_step p steps dt t0 sp g k s of
        (Inl e, s1) \<Rightarrow> (Inl e, s1)
      | (Inr True, s1) \<Rightarrow> (Inr True, s1)
      | (Inr False, s1) \<Rightarrow> stream_loop p steps dt t0 sp g ks s1)"

text \<open>\<^verbatim>\<open>max(abs(goal[i] - pos[i]) for i in self.cfg.ids)\<close>\<close>

fun abs_errs :: "(int \<rightharpoonup> int) \<Rightarrow> (int \<rightharpoonup> int) \<Rightarrow> int list \<Rightarrow> error + int list" where
  "abs_errs g pos [] = Inr []"
| "abs_errs g pos (i # rest) =
     (case g i of
        None \<Rightarrow> Inl (KeyError i)
      | Some gi \<Rightarrow>
          (case pos i of
             None \<Rightarrow> Inl (KeyError i)
           | Some pv \<Rightarrow>
               (case abs_errs g pos rest of
                  Inl e \<Rightarrow> Inl e
                | Inr es \<Rightarrow> Inr (\<bar>gi - pv\<bar> # es))))"

definition max_abs_err :: "(int \<rightharpoonup> int) \<Rightarrow> (int \<rightharpoonup> int) \<Rightarrow> int list \<Rightarrow> error + int" where
  "max_abs_err g pos axes =
     (case abs_errs g pos axes of
        Inl e \<Rightarrow> Inl e
      | Inr [] \<Rightarrow> Inl ValueError
      | Inr (e # es) \<Rightarrow> Inr (fold max es e))"

text \<open>The return of the settled branch, with the conversion done for the log line first.\<close>

definition settled_result ::
  "exec_args \<Rightarrow> DxlConfig \<Rightarrow> (int \<rightharpoonup> int) \<Rightarrow> (int \<rightharpoonup> int option) \<Rightarrow> (int \<rightharpoonup> int) \<Rightarrow>
   (int \<rightharpoonup> int) \<Rightarrow> (int \<rightharpoonup> int option) \<Rightarrow> int \<Rightarrow> error + MotionResult" where
  "settled_result p c sp sc g pos cur max_err =
     (case (if log p then ticks_to_deg c max_err else Inr 0) of
        Inl e \<Rightarrow> Inl e
      | Inr printed \<Rightarrow>
          (case ticks_to_deg c max_err of
             Inl e \<Rightarrow> Inl e
           | Inr d \<Rightarrow>
               Inr \<lparr> settled = True, start_pos = sp, start_current = sc, goal = g,
                     final_pos = pos, final_current = cur,
                     max_err_ticks = Some max_err, max_err_deg = Some d \<rparr>))"

text \<open>What follows the settle loop once the deadline has passed.\<close>

definition timeout_result ::
  "exec_args \<Rightarrow> (int \<rightharpoonup> int) \<Rightarrow> (int \<rightharpoonup> int option) \<Rightarrow> (int \<rightharpoonup> int) \<Rightarrow> int option \<Rightarrow> servo \<Rightarrow>
   (error + MotionResult) \<times> servo" where
  "timeout_result p sp sc g last_max_err s =
     (case (if log p then ticks_to_deg (cfg s) (case last_max_err of None \<Rightarrow> 0 | Some e \<Rightarrow> e)
            else Inr 0) of
        Inl e \<Rightarrow> (Inl e, s)
      | Inr printed \<Rightarrow>
          (case bulk_read True s of
             (Inl e, s1) \<Rightarrow> (Inl e, s1)
           | (Inr (pos, cur), s1) \<Rightarrow>
               (case last_max_err of
                  None \<Rightarrow>
                    (Inr \<lparr> settled = False, start_pos = sp, start_current = sc, goal = g,
                           final_pos = pos, final_current = cur,
                           max_err_ticks = None, max_err_deg = None \<rparr>, s1)
                | Some e \<Rightarrow>
                    (case ticks_to_deg (cfg s1) e of
                       Inl err \<Rightarrow> (Inl err, s1)
                     | Inr d \<Rightarrow>
                         (Inr \<lparr> settled = False, start_pos = sp, start_current = sc, goal = g,
                                final_pos = pos, final_current = cur,
                                max_err_ticks = Some e, max_err_deg = Some d \<rparr>, s1)))))"

text \<open>
  The settle loop \<^verbatim>\<open>while time.time() < deadline\<close>, with the code after it. Nothing
  bounds the number of its iterations but the clock, so the loop is a partial function:
  \<open>None\<close> is a run that never leaves the loop.
\<close>

partial_function (option) settle_loop ::
  "exec_args \<Rightarrow> (int \<rightharpoonup> int) \<Rightarrow> (int \<rightharpoonup> int option) \<Rightarrow> (int \<rightharpoonup> int) \<Rightarrow> int \<Rightarrow> real \<Rightarrow>
   int \<Rightarrow> int option \<Rightarrow> servo \<Rightarrow> ((error + MotionResult) \<times> servo) option" where
  "settle_loop p sp sc g eps_ticks deadline ok_streak last_max_err s =
     (case now s of
        (t, s1) \<Rightarrow>
          if t < deadline then
            (case bulk_read True s1 of
               (Inl e, s2) \<Rightarrow> Some (Inl e, s2)
             | (Inr (pos, cur), s2) \<Rightarrow>
                 (case max_abs_err g pos (ids (cfg s2)) of
                    Inl e \<Rightarrow> Some (Inl e, s2)
                  | Inr max_err \<Rightarrow>
                      if max_err \<le> eps_ticks then
                        (if ok_streak + 1 \<ge> settle_n p
                         then Some (settled_result p (cfg s2) sp sc g pos cur max_err, s2)
                         else settle_loop p sp sc g eps_ticks deadline (ok_streak + 1) (Some max_err)
                                (sleep (1 / of_int (max 5 (poll_hz p))) s2))
                      else settle_loop p sp sc g eps_ticks deadline 0 (Some max_err)
                             (sleep (1 / of_int (max 5 (poll_hz p))) s2)))
          else Some (timeout_result p sp sc g last_max_err s1))"

definition execute_time_synced :: "exec_args \<Rightarrow> servo \<Rightarrow> ((error + MotionResult) \<times> servo) option" where
  "execute_time_synced p s =
     (case bulk_read True s of
        (Inl e, s1) \<Rightarrow> Some (Inl e, s1)
      | (Inr (sp, sc), s1) \<Rightarrow>
          (case goal_dict (cmd_ticks s1) (ids (cfg s1)) Map.empty of
             Inl e \<Rightarrow> Some (Inl e, s1)
           | Inr g \<Rightarrow>
               (let steps = steps_of p;
                    dt = dt_of p;
                    eps_ticks = eps_ticks_of (cfg s1) p
                in case now s1 of
                     (t0, s2) \<Rightarrow>
                       (case stream_loop p steps dt t0 sp g [1..steps] s2 of
                          (Inl e, s3) \<Rightarrow> Some (Inl e, s3)
                        | (Inr broke, s3) \<Rightarrow>
                            (case now s3 of
                               (t, s4) \<Rightarrow>
                                 settle_loop p sp sc g eps_ticks
                                   (t + max (2 / 10) (duration_s p * timeout_factor p)) 0 None s4)))))"

subsection \<open>Reset of the command state\<close>




subsection \<open>Sessions\<close>




subsection \<open>Test fixtures\<close>

text \<open>
  A bus answer with comm code 0 that carries, per axis, the raw position given by
  \<open>posf\<close> and the raw current given by \<open>curf\<close> (\<open>None\<close>: not available).
\<close>

definition reply_with :: "DxlConfig \<Rightarrow> (int \<Rightarrow> int option) \<Rightarrow> (int \<Rightarrow> int option) \<Rightarrow> bulk_reply" where
  "reply_with c posf curf =
     \<lparr> comm = 0,
       data = (\<lambda>i a l. if a = addr_present_position c \<and> l = 4 then posf i
                       else if a = addr_present_current c \<and> l = 2 then curf i
                       else None) \<rparr>"

text \<open>A stream that plays a list and then stays at a last value.\<close>

definition play :: "'a list \<Rightarrow> 'a \<Rightarrow> nat \<Rightarrow> 'a" where
  "play xs d n = (if n < length xs then xs ! n else d)"

text \<open>One axis with ID 1 and the register addresses of an XL330.\<close>

definition cfg1 :: DxlConfig where
  "cfg1 = \<lparr> device = ''/dev/ttyUSB0'', baudrate = 57600, protocol = 2, ids = [1],
            ticks_per_rev = 4096, addr_operating_mode = 11, addr_torque_enable = 64,
            addr_goal_position = 116, addr_present_position = 132,
            addr_present_current = 126, mode_extended_position = 4 \<rparr>"

text \<open>The answer of the one-axis bus with position \<open>x\<close> and current \<open>c\<close>.\<close>

definition reply1 :: "int \<Rightarrow> int option \<Rightarrow> bulk_reply" where
  "reply1 x c = reply_with cfg1 (\<lambda>i. if i = 1 then Some x else None) (\<lambda>i. if i = 1 then c else None)"

text \<open>The default keyword arguments of \<^verbatim>\<open>execute_time_synced\<close>.\<close>

definition default_args :: exec_args where
  "default_args = \<lparr> duration_s = 1, poll_hz = 50, eps_deg = 2, settle_n = 3, timeout_factor = 2,
                    smoothstep = True, current_guard = None, log = True \<rparr>"

text \<open>The recursion equation of the settle loop also evaluates it.\<close>

declare settle_loop.simps [code]



text \<open>A fresh one-axis controller: the command of axis 1 is 0.\<close>

definition world_c6 :: servo where
  "world_c6 = init cfg1 (\<lambda>n. reply1 0 None) (\<lambda>n. 0) (\<lambda>n. real n)"

text \<open>
  What no bus traffic and no clock reading changes: the configuration, the command state
  and the answers the environment has in store; and the support flag of the current
  channel once it is determined.
\<close>

definition unchanged :: "servo \<Rightarrow> servo \<Rightarrow> bool" where
  "unchanged s s' \<longleftrightarrow>
     cfg s' = cfg s \<and> cmd_ticks s' = cmd_ticks s \<and> bus_replies s' = bus_replies s
   \<and> sync_results s' = sync_results s \<and> clock s' = clock s
   \<and> (supports_current s = None \<or> supports_current s' = supports_current s)"

text \<open>
  The one-axis controller commanded to 90 degrees (1024 ticks) on a bus that keeps
  answering position 0, and the default arguments at 10 Hz.
\<close>

definition world_c8 :: servo where
  "world_c8 = set_targets_abs_deg [(1, 90)] (init cfg1 (\<lambda>n. reply1 0 None) (\<lambda>n. 0) (\<lambda>n. real n))"

definition args_c8 :: exec_args where
  "args_c8 = default_args\<lparr>poll_hz := 10\<rparr>"

text \<open>
  No axis can report a current: the channel is marked unsupported, or no answer of the
  bus carries a current.
\<close>

definition no_current :: "servo \<Rightarrow> bool" where
  "no_current s \<longleftrightarrow>
     supports_current s = Some False
   \<or> (\<forall>n i. data (bus_replies s n) i (addr_present_current (cfg s)) LEN_2 = None)"

text \<open>
  The default arguments at 10 Hz with the guard band from -300 to 300, which checks the
  current at every step; and a one-axis bus that answers position 0 and current 500.
\<close>

definition args_guard :: exec_args where
  "args_guard = default_args\<lparr>poll_hz := 10, current_guard := Some (- 300, 300)\<rparr>"

definition world_trip :: servo where
  "world_trip = init cfg1 (\<lambda>n. reply1 0 (Some 500)) (\<lambda>n. 0) (\<lambda>n. real n)"



text \<open>
  What one settle poll measures from the answer of the bus: the failure of the bulk read,
  or the maximum absolute tick error against the goal.
\<close>

definition poll_err :: "DxlConfig \<Rightarrow> (int \<rightharpoonup> int) \<Rightarrow> bulk_reply \<Rightarrow> error + int" where
  "poll_err c g r =
     (if comm r \<noteq> COMM_SUCCESS then Inl (BulkReadFailed (comm r))
      else case read_positions c r (ids c) Map.empty of
             Inl e \<Rightarrow> Inl e
           | Inr pos \<Rightarrow> max_abs_err g pos (ids c))"

text \<open>
  Following the spec's words: a consecutive run of \<open>n\<close> polls, each with a maximum
  absolute tick error of at most \<open>eps\<close>, ends at poll \<open>i\<close> of the sequence \<open>errs\<close> of
  measured errors (polls are counted from 0).
\<close>

definition streak_ends_at :: "int \<Rightarrow> nat \<Rightarrow> int list \<Rightarrow> nat \<Rightarrow> bool" where
  "streak_ends_at eps n errs i \<longleftrightarrow>
     i < length errs \<and> n \<le> Suc i \<and> (\<forall>j \<in> {Suc i - n ..< Suc i}. errs ! j \<le> eps)"

text \<open>The same when \<open>k\<close> polls within tolerance came right before the sequence.\<close>

definition streak_from :: "nat \<Rightarrow> int \<Rightarrow> nat \<Rightarrow> int list \<Rightarrow> nat \<Rightarrow> bool" where
  "streak_from k eps n errs i \<longleftrightarrow>
     i < length errs \<and> n \<le> k + Suc i \<and> (\<forall>j \<in> {Suc i - n ..< Suc i}. errs ! j \<le> eps)"

text \<open>
  The next polls of the settle loop, as many as \<open>errs\<close> is long, each start before
  the deadline and measure the errors \<open>errs\<close>.
\<close>

definition polls_give :: "servo \<Rightarrow> (int \<rightharpoonup> int) \<Rightarrow> real \<Rightarrow> int list \<Rightarrow> bool" where
  "polls_give s g deadline errs \<longleftrightarrow>
     (\<forall>j < length errs.
        clock s (clock_reads s + j) < deadline
      \<and> poll_err (cfg s) g (bus_replies s (bus_reads s + j)) = Inr (errs ! j))"

text \<open>
  One step of one second and a tolerance of 45/256 degrees, which is 2 ticks. On the
  one-axis bus with goal 0 the measured error is the position: the polls of \<open>bus_a\<close>
  measure 5, 5, 1, 1, 1 and those of \<open>bus_b\<close> measure 1, 1, 5, 1, 1. \<open>settle_a\<close> and
  \<open>settle_b\<close> enter the settle loop with the deadline 1: the clock of the first stays
  at 0, the clock of the second jumps to 10 after five readings. \<open>world_c2a\<close> and
  \<open>world_c2b\<close> are the same buses for a whole call, which starts with one more read.
\<close>

definition args_c2 :: exec_args where
  "args_c2 = default_args\<lparr>poll_hz := 1, eps_deg := 45 / 256\<rparr>"

definition bus_a :: "nat \<Rightarrow> bulk_reply" where
  "bus_a = play [reply1 5 None, reply1 5 None, reply1 1 None, reply1 1 None, reply1 1 None] (reply1 9 None)"

definition bus_b :: "nat \<Rightarrow> bulk_reply" where
  "bus_b = play [reply1 1 None, reply1 1 None, reply1 5 None, reply1 1 None, reply1 1 None] (reply1 9 None)"

definition settle_a :: servo where
  "settle_a = init cfg1 bus_a (\<lambda>n. 0) (\<lambda>n. 0)"

definition settle_b :: servo where
  "settle_b = init cfg1 bus_b (\<lambda>n. 0) (play [0, 0, 0, 0, 0] 10)"

definition world_c2a :: servo where
  "world_c2a = init cfg1 (play [reply1 5 None, reply1 5 None, reply1 5 None, reply1 1 None, reply1 1 None,
       reply1 1 None] (reply1 9 None)) (\<lambda>n. 0) (\<lambda>n. 0)"

definition world_c2b :: servo where
  "world_c2b = init cfg1 (play [reply1 1 None, reply1 1 None, reply1 1 None, reply1 5 None, reply1 1 None,
       reply1 1 None] (reply1 9 None)) (\<lambda>n. 0) (play [0, 0, 0, 0, 0, 0, 0, 0] 10)"





section \<open>Properties\<close>

subsection \<open>Mode switching\<close>

lemma extended_mode_axis_cfg: "cfg (extended_mode_axis i s) = cfg s"
  by (simp add: extended_mode_axis_def write1ByteTxRx_def Let_def)

lemma extended_mode_axis_log:
  "bus_log (extended_mode_axis i s) = bus_log s @ mode_triple (cfg s) i"
  by (simp add: extended_mode_axis_def write1ByteTxRx_def Let_def mode_triple_def)


lemma fold_extended_mode_log:
  "bus_log (fold extended_mode_axis xs s) = bus_log s @ concat (map (mode_triple (cfg s)) xs)"
proof (induction xs arbitrary: s)
  case Nil
  show ?case by simp
next
  case (Cons x xs)
  show ?case
    by (simp add: Cons.IH extended_mode_axis_cfg extended_mode_axis_log)
qed

text \<open>
  C9. The packets \<^verbatim>\<open>ensure_extended_mode\<close> sends are exactly, for each processed axis in
  turn, the triple torque-disable, set-operating-mode (to the configured extended
  position mode), torque-enable, appended to what was sent before: the three writes of
  one axis are adjacent and in that order, and nothing else is sent.
\<close>

theorem ensure_extended_mode_writes:
  "bus_log (ensure_extended_mode ids_arg s) =
     bus_log s @ concat (map (mode_triple (cfg s)) (ids_or_cfg ids_arg s))"
  by (simp add: ensure_extended_mode_def fold_extended_mode_log)

subsection \<open>Entry parameters and interpolation\<close>

lemma py_round_of_int: "py_round (of_int n) = n"
  by (simp add: py_round_def)






lemma shape_0: "shape sm 0 = 0"
  by (simp add: shape_def)

lemma shape_1: "shape sm 1 = 1"
  by (simp add: shape_def)

lemma waypoint_at_1: "waypoint start gl 1 = gl"
proof -
  have "of_int start + of_int (gl - start) * (1::real) = of_int gl" by simp
  then show ?thesis by (simp only: waypoint_def py_round_of_int)
qed

lemma mid_dict_map_of:
  "mid_dict sp g a axes acc = Inr mid \<Longrightarrow>
     map_of mid i = (if i \<in> set axes then map_option (\<lambda>gi. waypoint (the (sp i)) gi a) (g i) else map_of acc i)"
proof (induction axes arbitrary: acc)
  case Nil
  then show ?case by simp
next
  case (Cons x xs)
  then show ?case
    by (auto simp: update_conv' split: option.splits)
qed

lemma mid_dict_last_step:
  assumes "mid_dict sp g 1 axes [] = Inr mid" and "i \<in> set axes"
  shows "map_of mid i = g i"
proof -
  have "map_of mid i = map_option (\<lambda>gi. waypoint (the (sp i)) gi 1) (g i)"
    using mid_dict_map_of [OF assms(1), of i] assms(2) by simp
  then show ?thesis by (cases "g i") (simp_all add: waypoint_at_1)
qed

text \<open>
  C7. The shaper maps 0 to 0 and 1 to 1 in both modes. At the last step \<open>k = steps\<close>
  (any \<open>steps \<ge> 1\<close>) the waypoint of every start and goal is the goal itself, and the
  dictionary of waypoints the loop builds there maps every configured axis to its goal.
\<close>

theorem interpolation_boundary:
  "shape sm 0 = 0 \<and> shape sm 1 = 1
   \<and> (1 \<le> steps \<longrightarrow> waypoint start gl (shape sm (of_int steps / of_int steps)) = gl)
   \<and> (1 \<le> steps \<and> mid_dict sp g (shape sm (of_int steps / of_int steps)) axes [] = Inr mid
        \<longrightarrow> (\<forall>i \<in> set axes. map_of mid i = g i))"
proof (intro conjI impI ballI)
  show "shape sm 0 = 0" by (rule shape_0)
  show "shape sm 1 = 1" by (rule shape_1)
next
  assume "1 \<le> steps"
  then have "(of_int steps / of_int steps :: real) = 1" by simp
  then show "waypoint start gl (shape sm (of_int steps / of_int steps)) = gl"
    by (simp only: shape_1 waypoint_at_1)
next
  fix i
  assume a: "1 \<le> steps \<and> mid_dict sp g (shape sm (of_int steps / of_int steps)) axes [] = Inr mid"
    and i: "i \<in> set axes"
  from a have "(of_int steps / of_int steps :: real) = 1" by simp
  with a have "mid_dict sp g 1 axes [] = Inr mid" by (simp only: shape_1)
  then show "map_of mid i = g i" using i by (rule mid_dict_last_step)
qed

text \<open>C7 at 75 steps, from -1000 to 2048 ticks, with smoothstep.\<close>

theorem interpolation_boundary_witness:
  "(1::int) \<le> 75 \<and> waypoint (-1000) 2048 (shape True (of_int 75 / of_int 75)) = 2048
   \<and> mid_dict [1 \<mapsto> -1000] [1 \<mapsto> 2048] (shape True (of_int 75 / of_int 75)) [1] [] = Inr [(1, 2048)]
   \<and> map_of [(1::int, 2048::int)] 1 = [1 \<mapsto> 2048] 1"
proof -
  have m: "mid_dict [1 \<mapsto> -1000] [1 \<mapsto> 2048] (shape True (of_int 75 / of_int 75)) [1] [] = Inr [(1, 2048)]"
    by (simp add: shape_def waypoint_def py_round_def)
  show ?thesis
    using interpolation_boundary [of True 75 "-1000" 2048 "[1 \<mapsto> -1000]" "[1 \<mapsto> 2048]" "[1]" "[(1, 2048)]"] m
    by simp
qed

subsection \<open>Relative nudges\<close>

lemma nudge_rel_deg_frame:
  "nudge_rel_deg ds s = (r, s') \<Longrightarrow>
     cfg s' = cfg s \<and> last_present_ticks s' = last_present_ticks s
   \<and> last_present_current s' = last_present_current s \<and> supports_current s' = supports_current s
   \<and> bus_log s' = bus_log s \<and> bus_reads s' = bus_reads s \<and> sync_writes s' = sync_writes s
   \<and> clock_reads s' = clock_reads s"
proof (induction ds arbitrary: s)
  case Nil
  then show ?case by simp
next
  case (Cons a ds)
  obtain i d where a: "a = (i, d)" by (cases a)
  show ?case
  proof (cases "cmd_ticks s i")
    case None
    with Cons.prems a show ?thesis by simp
  next
    case (Some c)
    with Cons.prems a Cons.IH [of "s\<lparr>cmd_ticks := (cmd_ticks s)(i \<mapsto> clamp32 (c + deg_to_ticks (cfg s) d))\<rparr>"]
    show ?thesis by simp
  qed
qed

lemma nudge_rel_deg_cmd:
  assumes "distinct (map fst ds)" and "fst ` set ds \<subseteq> dom (cmd_ticks s)"
  shows "\<exists>s'. nudge_rel_deg ds s = (Inr (), s') \<and>
           (\<forall>i. cmd_ticks s' i =
              (case map_of ds i of
                 None \<Rightarrow> cmd_ticks s i
               | Some d \<Rightarrow> map_option (\<lambda>c. clamp32 (c + deg_to_ticks (cfg s) d)) (cmd_ticks s i)))"
  using assms
proof (induction ds arbitrary: s)
  case Nil
  then show ?case by simp
next
  case (Cons a ds)
  obtain i d where a: "a = (i, d)" by (cases a)
  from Cons.prems a obtain c where c: "cmd_ticks s i = Some c" by auto
  let ?s1 = "s\<lparr>cmd_ticks := (cmd_ticks s)(i \<mapsto> clamp32 (c + deg_to_ticks (cfg s) d))\<rparr>"
  have d1: "distinct (map fst ds)" and ni: "i \<notin> fst ` set ds" using Cons.prems a by auto
  have sub: "fst ` set ds \<subseteq> dom (cmd_ticks ?s1)" using Cons.prems by auto
  from Cons.IH [OF d1 sub] obtain s' where
    s': "nudge_rel_deg ds ?s1 = (Inr (), s')"
    and v: "\<And>j. cmd_ticks s' j =
              (case map_of ds j of
                 None \<Rightarrow> cmd_ticks ?s1 j
               | Some d \<Rightarrow> map_option (\<lambda>c. clamp32 (c + deg_to_ticks (cfg ?s1) d)) (cmd_ticks ?s1 j))"
    by blast
  have run: "nudge_rel_deg (a # ds) s = (Inr (), s')" using a c s' by simp
  have "cmd_ticks s' j =
          (case map_of (a # ds) j of
             None \<Rightarrow> cmd_ticks s j
           | Some d \<Rightarrow> map_option (\<lambda>c. clamp32 (c + deg_to_ticks (cfg s) d)) (cmd_ticks s j))" for j
  proof (cases "j = i")
    case True
    from ni have "map_of ds i = None" by (simp add: map_of_eq_None_iff)
    with True v [of i] a c show ?thesis by simp
  next
    case False
    with v [of j] a show ?thesis by (simp split: option.splits)
  qed
  with run show ?case by blast
qed

lemma clamp32_id: "- 2147483648 \<le> t \<Longrightarrow> t \<le> 2147483647 \<Longrightarrow> clamp32 t = t"
  by (simp add: clamp32_def)

text \<open>
  C6. A nudge converts each delta to ticks once and adds it to the stored command of the
  listed axis, clamped to 32 bits; no bus read happens and the cached measurements are
  neither used nor changed. Two nudges of an axis therefore store the old command plus
  the two independently converted deltas whenever no clamping occurs. The dictionaries
  are lists of items with distinct keys; the axes they name have a stored command.
\<close>

theorem nudge_rel_deg_adds_to_command:
  assumes d1: "distinct (map fst ds1)" and k1: "fst ` set ds1 \<subseteq> dom (cmd_ticks s)"
    and d2: "distinct (map fst ds2)" and k2: "fst ` set ds2 \<subseteq> dom (cmd_ticks s)"
    and c: "cmd_ticks s i = Some c" and m1: "map_of ds1 i = Some x1" and m2: "map_of ds2 i = Some x2"
  shows "\<exists>s1 s2.
           nudge_rel_deg ds1 s = (Inr (), s1) \<and> nudge_rel_deg ds2 s1 = (Inr (), s2)
         \<and> cmd_ticks s1 i = Some (clamp32 (c + deg_to_ticks (cfg s) x1))
         \<and> cmd_ticks s2 i =
             Some (clamp32 (clamp32 (c + deg_to_ticks (cfg s) x1) + deg_to_ticks (cfg s) x2))
         \<and> (- 2147483648 \<le> c + deg_to_ticks (cfg s) x1 \<and> c + deg_to_ticks (cfg s) x1 \<le> 2147483647
            \<and> - 2147483648 \<le> c + deg_to_ticks (cfg s) x1 + deg_to_ticks (cfg s) x2
            \<and> c + deg_to_ticks (cfg s) x1 + deg_to_ticks (cfg s) x2 \<le> 2147483647
            \<longrightarrow> cmd_ticks s2 i = Some (c + deg_to_ticks (cfg s) x1 + deg_to_ticks (cfg s) x2))
         \<and> bus_log s2 = bus_log s \<and> bus_reads s2 = bus_reads s
         \<and> last_present_ticks s2 = last_present_ticks s"
proof -
  from nudge_rel_deg_cmd [OF d1 k1] obtain s1 where
    r1: "nudge_rel_deg ds1 s = (Inr (), s1)"
    and v1: "\<And>j. cmd_ticks s1 j =
              (case map_of ds1 j of
                 None \<Rightarrow> cmd_ticks s j
               | Some d \<Rightarrow> map_option (\<lambda>c. clamp32 (c + deg_to_ticks (cfg s) d)) (cmd_ticks s j))"
    by blast
  have f1: "cfg s1 = cfg s" "bus_log s1 = bus_log s" "bus_reads s1 = bus_reads s"
    "last_present_ticks s1 = last_present_ticks s"
    using nudge_rel_deg_frame [OF r1] by simp_all
  have "dom (cmd_ticks s) \<subseteq> dom (cmd_ticks s1)"
  proof
    fix j assume "j \<in> dom (cmd_ticks s)"
    then obtain y where "cmd_ticks s j = Some y" by auto
    with v1 [of j] show "j \<in> dom (cmd_ticks s1)" by (cases "map_of ds1 j") auto
  qed
  with k2 have k2': "fst ` set ds2 \<subseteq> dom (cmd_ticks s1)" by blast
  from nudge_rel_deg_cmd [OF d2 k2'] obtain s2 where
    r2: "nudge_rel_deg ds2 s1 = (Inr (), s2)"
    and v2: "\<And>j. cmd_ticks s2 j =
              (case map_of ds2 j of
                 None \<Rightarrow> cmd_ticks s1 j
               | Some d \<Rightarrow> map_option (\<lambda>c. clamp32 (c + deg_to_ticks (cfg s1) d)) (cmd_ticks s1 j))"
    by blast
  have f2: "bus_log s2 = bus_log s1" "bus_reads s2 = bus_reads s1"
    "last_present_ticks s2 = last_present_ticks s1"
    using nudge_rel_deg_frame [OF r2] by simp_all
  have e1: "cmd_ticks s1 i = Some (clamp32 (c + deg_to_ticks (cfg s) x1))"
    using v1 [of i] c m1 by simp
  have e2: "cmd_ticks s2 i =
      Some (clamp32 (clamp32 (c + deg_to_ticks (cfg s) x1) + deg_to_ticks (cfg s) x2))"
    using v2 [of i] e1 m2 f1(1) by simp
  have e3: "cmd_ticks s2 i = Some (c + deg_to_ticks (cfg s) x1 + deg_to_ticks (cfg s) x2)"
    if "- 2147483648 \<le> c + deg_to_ticks (cfg s) x1 \<and> c + deg_to_ticks (cfg s) x1 \<le> 2147483647
        \<and> - 2147483648 \<le> c + deg_to_ticks (cfg s) x1 + deg_to_ticks (cfg s) x2
        \<and> c + deg_to_ticks (cfg s) x1 + deg_to_ticks (cfg s) x2 \<le> 2147483647"
    using e2 that by (simp add: clamp32_id)
  from r1 r2 e1 e2 e3 f1 f2 show ?thesis by auto
qed

lemma deg_to_ticks_90: "deg_to_ticks cfg1 90 = 1024"
  by (simp add: deg_to_ticks_def cfg1_def py_round_def)

lemma deg_to_ticks_45: "deg_to_ticks cfg1 45 = 512"
  by (simp add: deg_to_ticks_def cfg1_def py_round_def)

text \<open>C6 on the fresh one-axis controller: 90 degrees, then 45 degrees.\<close>

theorem nudge_rel_deg_adds_to_command_witness:
  "cmd_ticks world_c6 1 = Some 0
   \<and> nudge_rel_deg [(1, 45)] (snd (nudge_rel_deg [(1, 90)] world_c6)) =
       (Inr (), world_c6\<lparr>cmd_ticks := [1 \<mapsto> 1536]\<rparr>)"
proof -
  have cm: "cmd_ticks world_c6 = [1 \<mapsto> 0]" and g: "cfg world_c6 = cfg1"
    by (simp_all add: world_c6_def init_def cfg1_def)
  have c: "cmd_ticks world_c6 1 = Some 0" by (simp add: cm)
  have "\<exists>s1 s2. nudge_rel_deg [(1, 90)] world_c6 = (Inr (), s1) \<and> nudge_rel_deg [(1, 45)] s1 = (Inr (), s2)
      \<and> cmd_ticks s2 1 = Some 1536"
    using nudge_rel_deg_adds_to_command [of "[(1, 90)]" world_c6 "[(1, 45)]" 1 0 90 45] c g
    by (simp add: deg_to_ticks_90 deg_to_ticks_45 clamp32_def)
  moreover have "nudge_rel_deg [(1, 45)] (snd (nudge_rel_deg [(1, 90)] world_c6)) =
       (Inr (), world_c6\<lparr>cmd_ticks := [1 \<mapsto> 1536]\<rparr>)"
    by (simp add: cm g deg_to_ticks_90 deg_to_ticks_45 clamp32_def)
  ultimately show ?thesis using c by simp
qed

subsection \<open>What an execution leaves alone\<close>

lemma unchanged_refl: "unchanged s s"
  by (simp add: unchanged_def)

lemma unchanged_trans: "unchanged s s1 \<Longrightarrow> unchanged s1 s2 \<Longrightarrow> unchanged s s2"
  by (auto simp: unchanged_def)

lemma bulk_read_unchanged: "bulk_read wc s = (r, s') \<Longrightarrow> unchanged s s'"
  by (auto simp: bulk_read_def Let_def unchanged_def split: if_splits sum.splits prod.splits)

lemma sync_write_unchanged: "sync_write_goal_positions gt s = (r, s') \<Longrightarrow> unchanged s s'"
  by (auto simp: sync_write_goal_positions_def Let_def unchanged_def split: if_splits sum.splits)

lemma now_unchanged: "now s = (t, s') \<Longrightarrow> unchanged s s'"
  by (auto simp: now_def unchanged_def)

lemma sleep_unchanged: "unchanged s (sleep d s)"
  by (simp add: sleep_def unchanged_def)

lemma keep_timing_unchanged: "unchanged s (keep_timing t0 dt k s)"
  by (simp add: keep_timing_def now_def sleep_def unchanged_def Let_def)

lemma guard_check_unchanged: "guard_check p k s = (r, s') \<Longrightarrow> unchanged s s'"
  by (auto simp: guard_check_def unchanged_refl split: option.splits prod.splits if_splits sum.splits
      dest: bulk_read_unchanged)

lemma stream_step_unchanged: "stream_step p steps dt t0 sp g k s = (r, s') \<Longrightarrow> unchanged s s'"
  by (auto simp: stream_step_def Let_def unchanged_refl split: sum.splits prod.splits bool.splits
      dest!: sync_write_unchanged guard_check_unchanged
      intro: unchanged_trans keep_timing_unchanged)

lemma stream_loop_unchanged: "stream_loop p steps dt t0 sp g ks s = (r, s') \<Longrightarrow> unchanged s s'"
proof (induction ks arbitrary: s)
  case Nil
  then show ?case by (simp add: unchanged_refl)
next
  case (Cons k ks)
  then show ?case
    by (auto split: sum.splits prod.splits bool.splits dest!: stream_step_unchanged
        intro: unchanged_trans)
qed

lemma timeout_result_unchanged: "timeout_result p sp sc g l s = (r, s') \<Longrightarrow> unchanged s s'"
  by (auto simp: timeout_result_def unchanged_refl split: sum.splits prod.splits option.splits if_splits
      dest: bulk_read_unchanged)

lemma settle_body_cases:
  fixes f :: "exec_args \<Rightarrow> (int \<rightharpoonup> int) \<Rightarrow> (int \<rightharpoonup> int option) \<Rightarrow> (int \<rightharpoonup> int) \<Rightarrow> int \<Rightarrow> real \<Rightarrow>
              int \<Rightarrow> int option \<Rightarrow> servo \<Rightarrow> ((error + MotionResult) \<times> servo) option"
  assumes "(case now s of
        (t, s1) \<Rightarrow>
          if t < deadline then
            (case bulk_read True s1 of
               (Inl e, s2) \<Rightarrow> Some (Inl e, s2)
             | (Inr (pos, cur), s2) \<Rightarrow>
                 (case max_abs_err g pos (ids (cfg s2)) of
                    Inl e \<Rightarrow> Some (Inl e, s2)
                  | Inr max_err \<Rightarrow>
                      if max_err \<le> eps_ticks then
                        (if ok_streak + 1 \<ge> settle_n p
                         then Some (settled_result p (cfg s2) sp sc g pos cur max_err, s2)
                         else f p sp sc g eps_ticks deadline (ok_streak + 1) (Some max_err)
                                (sleep (1 / of_int (max 5 (poll_hz p))) s2))
                      else f p sp sc g eps_ticks deadline 0 (Some max_err)
                             (sleep (1 / of_int (max 5 (poll_hz p))) s2)))
          else Some (timeout_result p sp sc g last_max_err s1)) = Some y"
  obtains
    (timeout) t s1 where "now s = (t, s1)" and "\<not> t < deadline"
      and "y = timeout_result p sp sc g last_max_err s1"
  | (read_failed) t s1 e s2 where "now s = (t, s1)" and "t < deadline"
      and "bulk_read True s1 = (Inl e, s2)" and "y = (Inl e, s2)"
  | (max_failed) t s1 pos cur s2 e where "now s = (t, s1)" and "t < deadline"
      and "bulk_read True s1 = (Inr (pos, cur), s2)"
      and "max_abs_err g pos (ids (cfg s2)) = Inl e" and "y = (Inl e, s2)"
  | (settled) t s1 pos cur s2 max_err where "now s = (t, s1)" and "t < deadline"
      and "bulk_read True s1 = (Inr (pos, cur), s2)"
      and "max_abs_err g pos (ids (cfg s2)) = Inr max_err"
      and "max_err \<le> eps_ticks" and "settle_n p \<le> ok_streak + 1"
      and "y = (settled_result p (cfg s2) sp sc g pos cur max_err, s2)"
  | (again) t s1 pos cur s2 max_err where "now s = (t, s1)" and "t < deadline"
      and "bulk_read True s1 = (Inr (pos, cur), s2)"
      and "max_abs_err g pos (ids (cfg s2)) = Inr max_err"
      and "max_err \<le> eps_ticks" and "\<not> settle_n p \<le> ok_streak + 1"
      and "f p sp sc g eps_ticks deadline (ok_streak + 1) (Some max_err)
             (sleep (1 / of_int (max 5 (poll_hz p))) s2) = Some y"
  | (reset) t s1 pos cur s2 max_err where "now s = (t, s1)" and "t < deadline"
      and "bulk_read True s1 = (Inr (pos, cur), s2)"
      and "max_abs_err g pos (ids (cfg s2)) = Inr max_err"
      and "\<not> max_err \<le> eps_ticks"
      and "f p sp sc g eps_ticks deadline 0 (Some max_err)
             (sleep (1 / of_int (max 5 (poll_hz p))) s2) = Some y"
proof -
  obtain t s1 where n: "now s = (t, s1)" by (cases "now s")
  show thesis
  proof (cases "t < deadline")
    case False
    with assms n have "y = timeout_result p sp sc g last_max_err s1" by simp
    with n False show thesis by (rule timeout)
  next
    case True
    obtain rr s2 where b: "bulk_read True s1 = (rr, s2)" by (cases "bulk_read True s1")
    show thesis
    proof (cases rr)
      case (Inl e)
      with assms n True b have "y = (Inl e, s2)" by simp
      with n True b Inl show thesis by (auto intro: read_failed)
    next
      case (Inr pc)
      obtain pos cur where pc: "pc = (pos, cur)" by (cases pc)
      have b': "bulk_read True s1 = (Inr (pos, cur), s2)" using b Inr pc by simp
      show thesis
      proof (cases "max_abs_err g pos (ids (cfg s2))")
        case (Inl e)
        with assms n True b' have "y = (Inl e, s2)" by simp
        with n True b' Inl show thesis by (auto intro: max_failed)
      next
        case me: (Inr max_err)
        show thesis
        proof (cases "max_err \<le> eps_ticks")
          case False
          with assms n True b' me
          have "f p sp sc g eps_ticks deadline 0 (Some max_err)
                  (sleep (1 / of_int (max 5 (poll_hz p))) s2) = Some y" by simp
          with n True b' me False show thesis by (rule reset)
        next
          case le: True
          show thesis
          proof (cases "settle_n p \<le> ok_streak + 1")
            case True
            with assms n \<open>t < deadline\<close> b' me le
            have "y = (settled_result p (cfg s2) sp sc g pos cur max_err, s2)" by simp
            with n \<open>t < deadline\<close> b' me le True show thesis by (rule settled)
          next
            case False
            with assms n \<open>t < deadline\<close> b' me le
            have "f p sp sc g eps_ticks deadline (ok_streak + 1) (Some max_err)
                    (sleep (1 / of_int (max 5 (poll_hz p))) s2) = Some y" by simp
            with n \<open>t < deadline\<close> b' me le False show thesis by (rule again)
          qed
        qed
      qed
    qed
  qed
qed

lemma settle_loop_unchanged:
  assumes "settle_loop p sp sc g eps deadline k l s = Some y"
  shows "unchanged s (snd y)"
proof (rule settle_loop.raw_induct
    [where P = "\<lambda>p sp sc g eps deadline k l s y. unchanged s (snd y)", OF _ assms], goal_cases)
  case (1 f p sp sc g eps deadline k l s y)
  from 1(2) show ?case
  proof (cases rule: settle_body_cases)
    case (timeout t s1)
    from timeout(3) have "unchanged s1 (snd y)"
      using timeout_result_unchanged [of p sp sc g l s1 "fst y" "snd y"] by simp
    with now_unchanged [OF timeout(1)] show ?thesis by (rule unchanged_trans)
  next
    case (read_failed t s1 e s2)
    with now_unchanged [OF read_failed(1)] bulk_read_unchanged [OF read_failed(3)]
    show ?thesis by (auto intro: unchanged_trans)
  next
    case (max_failed t s1 pos cur s2 e)
    with now_unchanged [OF max_failed(1)] bulk_read_unchanged [OF max_failed(3)]
    show ?thesis by (auto intro: unchanged_trans)
  next
    case (settled t s1 pos cur s2 max_err)
    with now_unchanged [OF settled(1)] bulk_read_unchanged [OF settled(3)]
    show ?thesis by (auto intro: unchanged_trans)
  next
    case (again t s1 pos cur s2 max_err)
    from 1(1) [OF again(7)] now_unchanged [OF again(1)] bulk_read_unchanged [OF again(3)]
    show ?thesis by (blast intro: unchanged_trans sleep_unchanged)
  next
    case (reset t s1 pos cur s2 max_err)
    from 1(1) [OF reset(6)] now_unchanged [OF reset(1)] bulk_read_unchanged [OF reset(3)]
    show ?thesis by (blast intro: unchanged_trans sleep_unchanged)
  qed
qed


lemma execute_time_synced_unchanged:
  assumes "execute_time_synced p s = Some (r, s')"
  shows "unchanged s s'"
proof -
  obtain r1 s1 where b: "bulk_read True s = (r1, s1)" by (cases "bulk_read True s")
  have u1: "unchanged s s1" using b by (rule bulk_read_unchanged)
  show ?thesis
  proof (cases r1)
    case (Inl e)
    with assms b u1 show ?thesis by (simp add: execute_time_synced_def)
  next
    case (Inr pc)
    obtain sp sc where pc: "pc = (sp, sc)" by (cases pc)
    show ?thesis
    proof (cases "goal_dict (cmd_ticks s1) (ids (cfg s1)) Map.empty")
      case (Inl e)
      with assms b Inr pc u1 show ?thesis by (simp add: execute_time_synced_def)
    next
      case g: (Inr g)
      obtain t0 s2 where n: "now s1 = (t0, s2)" by (cases "now s1")
      obtain r3 s3 where st: "stream_loop p (steps_of p) (dt_of p) t0 sp g [1..steps_of p] s2 = (r3, s3)"
        by (cases "stream_loop p (steps_of p) (dt_of p) t0 sp g [1..steps_of p] s2")
      have u3: "unchanged s s3"
        using u1 now_unchanged [OF n] stream_loop_unchanged [OF st] by (blast intro: unchanged_trans)
      show ?thesis
      proof (cases r3)
        case (Inl e)
        with assms b Inr pc g n st u3 show ?thesis by (simp add: execute_time_synced_def Let_def)
      next
        case br: (Inr broke)
        obtain t s4 where n4: "now s3 = (t, s4)" by (cases "now s3")
        from assms b Inr pc g n st br n4
        have "settle_loop p sp sc g (eps_ticks_of (cfg s1) p)
                (t + max (2 / 10) (duration_s p * timeout_factor p)) 0 None s4 = Some (r, s')"
          by (simp add: execute_time_synced_def Let_def)
        from settle_loop_unchanged [OF this] have "unchanged s4 s'" by simp
        with u3 now_unchanged [OF n4] show ?thesis by (blast intro: unchanged_trans)
      qed
    qed
  qed
qed

text \<open>
  C8. Whatever a call of \<^verbatim>\<open>execute_time_synced\<close> returns, a result (settled, timed
  out or after a guard trip) or an exception, the stored command mapping after the call
  is the one before it.
\<close>

theorem execute_time_synced_keeps_command:
  "execute_time_synced p s = Some (r, s') \<Longrightarrow> cmd_ticks s' = cmd_ticks s"
  by (drule execute_time_synced_unchanged) (simp add: unchanged_def)


text \<open>C8 on a run that times out: the command is still 1024 ticks.\<close>

theorem execute_time_synced_keeps_command_witness:
  "\<exists>r s'. execute_time_synced args_c8 world_c8 = Some (Inr r, s') \<and> \<not> settled r
      \<and> cmd_ticks s' = cmd_ticks world_c8 \<and> cmd_ticks world_c8 1 = Some 1024"
proof -
  have "map_option (\<lambda>(r, s'). map_sum id settled r) (execute_time_synced args_c8 world_c8) = Some (Inr False)"
    by code_simp
  then obtain r s' where e: "execute_time_synced args_c8 world_c8 = Some (Inr r, s')" and r: "\<not> settled r"
    by (cases "execute_time_synced args_c8 world_c8") (auto simp: map_sum_def split: sum.splits)
  have "cmd_ticks world_c8 1 = Some 1024"
    by (simp add: world_c8_def init_def cfg1_def deg_to_ticks_def py_round_def clamp32_def)
  with e r execute_time_synced_keeps_command [OF e] show ?thesis by blast
qed

subsection \<open>The current guard\<close>

lemma read_currents_absent:
  "\<forall>i \<in> set axes. data r i (addr_present_current c) LEN_2 = None \<Longrightarrow>
     read_currents c r axes (cur, ok) = (cur, ok \<and> axes = [])"
  by (induction axes arbitrary: cur ok) auto

lemma read_currents_cur:
  "read_currents c r axes (cur, ok) = (cur', ok') \<Longrightarrow> cur' i = Some (Some v) \<Longrightarrow>
     cur i = Some (Some v) \<or> (i \<in> set axes \<and> (\<exists>raw. data r i (addr_present_current c) LEN_2 = Some raw))"
proof (induction axes arbitrary: cur ok)
  case Nil
  then show ?case by simp
next
  case (Cons a axes)
  show ?case
  proof (cases "data r a (addr_present_current c) LEN_2")
    case None
    with Cons.prems have "read_currents c r axes (cur, False) = (cur', ok')" by simp
    from Cons.IH [OF this Cons.prems(2)] show ?thesis by auto
  next
    case (Some raw)
    with Cons.prems have "read_currents c r axes (cur(a \<mapsto> Some (i16 raw)), ok) = (cur', ok')" by simp
    from Cons.IH [OF this Cons.prems(2)] Some show ?thesis by (auto split: if_splits)
  qed
qed

lemma map_of_none_values: "map_of (map (\<lambda>i. (i, None)) axes) i \<noteq> Some (Some v)"
  by (induction axes) auto

text \<open>A present current in the result of a bulk read was requested and was answered.\<close>

lemma bulk_read_current_present:
  assumes "bulk_read wc s = (Inr (pos, cur), s')" and "cur i = Some (Some v)"
  shows "supports_current s \<noteq> Some False \<and> i \<in> set (ids (cfg s))
       \<and> (\<exists>raw. data (bus_replies s (bus_reads s)) i (addr_present_current (cfg s)) LEN_2 = Some raw)"
proof -
  let ?c = "cfg s" and ?r = "bus_replies s (bus_reads s)"
  let ?cur0 = "map_of (map (\<lambda>i. (i, None)) (ids ?c)) :: int \<rightharpoonup> int option"
  have n0: "?cur0 i \<noteq> Some (Some v)" by (rule map_of_none_values)
  show ?thesis
  proof (cases "wc \<and> supports_current s \<noteq> Some False")
    case False
    with assms(1) have "cur = ?cur0"
      by (auto simp: bulk_read_def Let_def split: if_splits sum.splits)
    with assms(2) n0 show ?thesis by simp
  next
    case True
    with assms(1) have "cur = fst (read_currents ?c ?r (ids ?c) (?cur0, True))"
      by (auto simp: bulk_read_def Let_def split: if_splits sum.splits prod.splits)
    then obtain ok' where "read_currents ?c ?r (ids ?c) (?cur0, True) = (cur, ok')"
      by (cases "read_currents ?c ?r (ids ?c) (?cur0, True)") simp
    from read_currents_cur [OF this assms(2)] n0 True show ?thesis by auto
  qed
qed

lemma guard_bad_set:
  "guard_bad cur mn mx axes = Inr bad \<Longrightarrow>
     set bad = {i \<in> set axes. \<exists>v. cur i = Some (Some v) \<and> (v < mn \<or> mx < v)}"
proof (induction axes arbitrary: bad)
  case Nil
  then show ?case by simp
next
  case (Cons a axes)
  from Cons.prems obtain ci bad' where ci: "cur a = Some ci"
    and r: "guard_bad cur mn mx axes = Inr bad'"
    and b: "bad = (case ci of None \<Rightarrow> bad' | Some v \<Rightarrow> if v < mn \<or> v > mx then a # bad' else bad')"
    by (auto split: option.splits sum.splits if_splits)
  from Cons.IH [OF r] ci b show ?case by (cases ci) auto
qed

lemma guard_check_trip:
  assumes "guard_check p k s = (Inr True, s')"
  shows "\<exists>mn mx pos cur i v. current_guard p = Some (mn, mx) \<and> k mod max 1 (poll_hz p div 10) = 0
           \<and> bulk_read True s = (Inr (pos, cur), s') \<and> i \<in> set (ids (cfg s'))
           \<and> cur i = Some (Some v) \<and> (v < mn \<or> mx < v)"
proof -
  from assms obtain mn mx where g: "current_guard p = Some (mn, mx)"
    by (cases "current_guard p") (auto simp: guard_check_def)
  from assms g have k: "k mod max 1 (poll_hz p div 10) = 0"
    by (auto simp: guard_check_def split: if_splits)
  from assms g k obtain pos cur bad where b: "bulk_read True s = (Inr (pos, cur), s')"
    and gb: "guard_bad cur mn mx (ids (cfg s')) = Inr bad" and ne: "bad \<noteq> []"
    by (auto simp: guard_check_def split: prod.splits sum.splits)
  from ne obtain i where "i \<in> set bad" by (cases bad) auto
  with guard_bad_set [OF gb] obtain v where
    v: "i \<in> set (ids (cfg s'))" "cur i = Some (Some v)" "v < mn \<or> mx < v"
    by auto
  have "current_guard p = Some (mn, mx) \<and> k mod max 1 (poll_hz p div 10) = 0
      \<and> bulk_read True s = (Inr (pos, cur), s') \<and> i \<in> set (ids (cfg s'))
      \<and> cur i = Some (Some v) \<and> (v < mn \<or> mx < v)"
    using g k b v by simp
  then show ?thesis by (intro exI)
qed


lemma no_current_unchanged: "unchanged s s' \<Longrightarrow> no_current s \<Longrightarrow> no_current s'"
  by (auto simp: unchanged_def no_current_def)

lemma bulk_read_no_current:
  assumes "no_current s" and "bulk_read wc s = (Inr (pos, cur), s')"
  shows "cur i \<noteq> Some (Some v)"
proof
  assume "cur i = Some (Some v)"
  from bulk_read_current_present [OF assms(2) this] assms(1) show False
    by (auto simp: no_current_def)
qed

lemma guard_check_no_current:
  assumes "no_current s"
  shows "fst (guard_check p k s) \<noteq> Inr True"
proof
  assume "fst (guard_check p k s) = Inr True"
  then obtain s' where "guard_check p k s = (Inr True, s')"
    by (cases "guard_check p k s") simp
  from guard_check_trip [OF this] obtain pos cur i v where
    "bulk_read True s = (Inr (pos, cur), s')" "cur i = Some (Some v)" by blast
  with bulk_read_no_current [OF assms] show False by blast
qed

lemma bulk_read_counts:
  "bulk_read wc s = (r, s') \<Longrightarrow>
     sync_writes s' = sync_writes s \<and> bus_reads s' = Suc (bus_reads s) \<and> clock_reads s' = clock_reads s"
  by (auto simp: bulk_read_def Let_def split: if_splits sum.splits prod.splits)

lemma sync_write_counts:
  "sync_write_goal_positions gt s = (Inr u, s') \<Longrightarrow>
     sync_writes s' = Suc (sync_writes s) \<and> bus_reads s' = bus_reads s \<and> clock_reads s' = clock_reads s"
  by (auto simp: sync_write_goal_positions_def Let_def split: if_splits sum.splits)

lemma keep_timing_counts:
  "sync_writes (keep_timing t0 dt k s) = sync_writes s \<and> bus_reads (keep_timing t0 dt k s) = bus_reads s
   \<and> clock_reads (keep_timing t0 dt k s) = Suc (clock_reads s)"
  by (simp add: keep_timing_def now_def sleep_def Let_def)

lemma guard_check_counts:
  "guard_check p k s = (r, s') \<Longrightarrow> sync_writes s' = sync_writes s"
  by (auto simp: guard_check_def split: option.splits prod.splits if_splits sum.splits
      dest: bulk_read_counts)

lemma stream_step_counts:
  "stream_step p steps dt t0 sp g k s = (Inr b, s') \<Longrightarrow> sync_writes s' = Suc (sync_writes s)"
  by (auto simp: stream_step_def Let_def keep_timing_counts split: sum.splits prod.splits bool.splits
      dest!: sync_write_counts guard_check_counts)

lemma stream_step_no_current:
  assumes "no_current s"
  shows "fst (stream_step p steps dt t0 sp g k s) \<noteq> Inr True"
proof
  assume a: "fst (stream_step p steps dt t0 sp g k s) = Inr True"
  then obtain mid u s1 s2 where
    w: "sync_write_goal_positions mid s = (Inr u, s1)" and gc: "guard_check p k s1 = (Inr True, s2)"
    by (auto simp: stream_step_def Let_def split: sum.splits prod.splits bool.splits)
  from no_current_unchanged [OF sync_write_unchanged [OF w] assms] have "no_current s1" .
  from guard_check_no_current [OF this, of p k] gc show False by simp
qed

lemma stream_loop_complete:
  "stream_loop p steps dt t0 sp g ks s = (Inr False, s') \<Longrightarrow>
     sync_writes s' = sync_writes s + length ks"
proof (induction ks arbitrary: s)
  case Nil
  then show ?case by simp
next
  case (Cons k ks)
  from Cons.prems obtain s1 where st: "stream_step p steps dt t0 sp g k s = (Inr False, s1)"
    and rest: "stream_loop p steps dt t0 sp g ks s1 = (Inr False, s')"
    by (auto split: sum.splits prod.splits bool.splits)
  from Cons.IH [OF rest] stream_step_counts [OF st] show ?case by simp
qed

lemma stream_loop_no_current:
  "no_current s \<Longrightarrow> fst (stream_loop p steps dt t0 sp g ks s) \<noteq> Inr True"
proof (induction ks arbitrary: s)
  case Nil
  then show ?case by simp
next
  case (Cons k ks)
  obtain r1 s1 where st: "stream_step p steps dt t0 sp g k s = (r1, s1)"
    by (cases "stream_step p steps dt t0 sp g k s")
  have nc: "no_current s1"
    using no_current_unchanged [OF stream_step_unchanged [OF st] Cons.prems] .
  from stream_step_no_current [OF Cons.prems, of p steps dt t0 sp g k] st
  have "r1 \<noteq> Inr True" by simp
  with st Cons.IH [OF nc] show ?case
    by (auto split: sum.splits bool.splits)
qed

lemma settle_loop_rel:
  assumes run: "settle_loop p sp sc g eps deadline k l s = Some y"
    and rf: "\<And>s. R s s" and tr: "\<And>s s1 s2. R s s1 \<Longrightarrow> R s1 s2 \<Longrightarrow> R s s2"
    and nw: "\<And>s. R s (snd (now s))" and rd: "\<And>s. R s (snd (bulk_read True s))"
    and sl: "\<And>d s. R s (sleep d s)"
  shows "R s (snd y)"
proof (rule settle_loop.raw_induct
    [where P = "\<lambda>p sp sc g eps deadline k l s y. R s (snd y)", OF _ run], goal_cases)
  case (1 f p sp sc g eps deadline k l s y)
  have rd2: "R s s2" if "now s = (t, s1)" "bulk_read True s1 = (rr, s2)" for t s1 rr s2
  proof -
    have "R s s1" using nw [of s] that(1) by simp
    moreover have "R s1 s2" using rd [of s1] that(2) by simp
    ultimately show ?thesis by (rule tr)
  qed
  from 1(2) show ?case
  proof (cases rule: settle_body_cases)
    case (timeout t s1)
    have "R s1 (snd (timeout_result p sp sc g l s1))"
      using rd [of s1] rf [of s1]
      by (auto simp: timeout_result_def split: sum.splits prod.splits option.splits)
    with timeout nw [of s] show ?thesis by (auto intro: tr)
  next
    case (read_failed t s1 e s2)
    with rd2 show ?thesis by auto
  next
    case (max_failed t s1 pos cur s2 e)
    with rd2 show ?thesis by auto
  next
    case (settled t s1 pos cur s2 max_err)
    with rd2 show ?thesis by auto
  next
    case (again t s1 pos cur s2 max_err)
    from 1(1) [OF again(7)] rd2 [OF again(1) again(3)] show ?thesis by (blast intro: tr sl)
  next
    case (reset t s1 pos cur s2 max_err)
    from 1(1) [OF reset(6)] rd2 [OF reset(1) reset(3)] show ?thesis by (blast intro: tr sl)
  qed
qed

lemma settle_loop_sync_writes:
  assumes "settle_loop p sp sc g eps deadline k l s = Some y"
  shows "sync_writes (snd y) = sync_writes s"
proof (rule settle_loop_rel [OF assms, where R = "\<lambda>s s'. sync_writes s' = sync_writes s"])
  show "sync_writes (snd (bulk_read True s)) = sync_writes s" for s
    using bulk_read_counts [of True s "fst (bulk_read True s)" "snd (bulk_read True s)"] by simp
qed (simp_all add: now_def sleep_def)

lemma execute_cases:
  assumes "execute_time_synced p s = Some y"
  obtains
    (start_failed) e s1 where "bulk_read True s = (Inl e, s1)" and "y = (Inl e, s1)"
  | (goal_failed) sp sc s1 e where "bulk_read True s = (Inr (sp, sc), s1)"
      and "goal_dict (cmd_ticks s1) (ids (cfg s1)) Map.empty = Inl e" and "y = (Inl e, s1)"
  | (stream_failed) sp sc s1 g t0 s2 e s3 where "bulk_read True s = (Inr (sp, sc), s1)"
      and "goal_dict (cmd_ticks s1) (ids (cfg s1)) Map.empty = Inr g" and "now s1 = (t0, s2)"
      and "stream_loop p (steps_of p) (dt_of p) t0 sp g [1..steps_of p] s2 = (Inl e, s3)"
      and "y = (Inl e, s3)"
  | (settling) sp sc s1 g t0 s2 broke s3 t s4 where "bulk_read True s = (Inr (sp, sc), s1)"
      and "goal_dict (cmd_ticks s1) (ids (cfg s1)) Map.empty = Inr g" and "now s1 = (t0, s2)"
      and "stream_loop p (steps_of p) (dt_of p) t0 sp g [1..steps_of p] s2 = (Inr broke, s3)"
      and "now s3 = (t, s4)"
      and "settle_loop p sp sc g (eps_ticks_of (cfg s1) p)
             (t + max (2 / 10) (duration_s p * timeout_factor p)) 0 None s4 = Some y"
proof -
  obtain r1 s1 where b: "bulk_read True s = (r1, s1)" by (cases "bulk_read True s")
  show thesis
  proof (cases r1)
    case (Inl e)
    with assms b have "y = (Inl e, s1)" by (simp add: execute_time_synced_def)
    with b Inl show thesis by (auto intro: start_failed)
  next
    case (Inr pc)
    obtain sp sc where pc: "pc = (sp, sc)" by (cases pc)
    have b': "bulk_read True s = (Inr (sp, sc), s1)" using b Inr pc by simp
    show thesis
    proof (cases "goal_dict (cmd_ticks s1) (ids (cfg s1)) Map.empty")
      case (Inl e)
      with assms b' have "y = (Inl e, s1)" by (simp add: execute_time_synced_def)
      with b' Inl show thesis by (auto intro: goal_failed)
    next
      case g: (Inr g)
      obtain t0 s2 where n: "now s1 = (t0, s2)" by (cases "now s1")
      obtain r3 s3 where st: "stream_loop p (steps_of p) (dt_of p) t0 sp g [1..steps_of p] s2 = (r3, s3)"
        by (cases "stream_loop p (steps_of p) (dt_of p) t0 sp g [1..steps_of p] s2")
      show thesis
      proof (cases r3)
        case (Inl e)
        with assms b' g n st have "y = (Inl e, s3)" by (simp add: execute_time_synced_def Let_def)
        with b' g n st Inl show thesis by (auto intro: stream_failed)
      next
        case br: (Inr broke)
        obtain t s4 where n4: "now s3 = (t, s4)" by (cases "now s3")
        from assms b' g n st br n4
        have "settle_loop p sp sc g (eps_ticks_of (cfg s1) p)
                (t + max (2 / 10) (duration_s p * timeout_factor p)) 0 None s4 = Some y"
          by (simp add: execute_time_synced_def Let_def)
        with b' g n st br n4 show thesis by (auto intro: settling)
      qed
    qed
  qed
qed

lemma length_upto_1: "length [1..n] = nat n"
  by simp

lemma execute_no_current_all_steps:
  assumes nc: "no_current s" and run: "execute_time_synced p s = Some (Inr r, s')"
  shows "sync_writes s' = sync_writes s + nat (steps_of p)"
  using run
proof (cases rule: execute_cases)
  case (settling sp sc s1 g t0 s2 broke s3 t s4)
  have "no_current s2"
    using nc bulk_read_unchanged [OF settling(1)] now_unchanged [OF settling(3)]
    by (blast intro: no_current_unchanged)
  from stream_loop_no_current [OF this, of p "steps_of p" "dt_of p" t0 sp g "[1..steps_of p]"] settling(4)
  have "broke = False" by auto
  with settling(4) have "sync_writes s3 = sync_writes s2 + nat (steps_of p)"
    using stream_loop_complete [of p "steps_of p" "dt_of p" t0 sp g "[1..steps_of p]" s2 s3] by simp
  moreover have "sync_writes s1 = sync_writes s" using bulk_read_counts [OF settling(1)] by simp
  moreover have "sync_writes s2 = sync_writes s1" using settling(3) by (auto simp: now_def)
  moreover have "sync_writes s4 = sync_writes s3" using settling(5) by (auto simp: now_def)
  moreover have "sync_writes s' = sync_writes s4" using settle_loop_sync_writes [OF settling(6)] by simp
  ultimately show ?thesis by simp
qed simp_all

text \<open>
  C10. The axes that trip the guard are exactly the configured axes whose current reading
  is present and strictly below the minimum or strictly above the maximum: an absent
  reading and a reading equal to a bound never trip it. A guard check that breaks the
  loop has read such a current. When no axis can report a current (the channel is marked
  unsupported, or no answer carries one), a streaming loop that ends without an exception
  did not break and sent every step, and a call that returns a result has sent all
  \<open>steps\<close> waypoints, guard or not.
\<close>

theorem guard_trips_only_on_present_current:
  "(guard_bad cur mn mx axes = Inr bad \<longrightarrow>
      set bad = {i \<in> set axes. \<exists>v. cur i = Some (Some v) \<and> (v < mn \<or> mx < v)})
   \<and> (guard_check p k s = (Inr True, s1) \<longrightarrow>
        (\<exists>mn mx pos cur i v. current_guard p = Some (mn, mx) \<and> k mod max 1 (poll_hz p div 10) = 0
           \<and> bulk_read True s = (Inr (pos, cur), s1) \<and> i \<in> set (ids (cfg s1))
           \<and> cur i = Some (Some v) \<and> (v < mn \<or> mx < v)))
   \<and> (no_current s \<and> stream_loop p steps dt t0 sp g ks s = (Inr b, s2) \<longrightarrow>
        \<not> b \<and> sync_writes s2 = sync_writes s + length ks)
   \<and> (no_current s \<and> execute_time_synced p s = Some (Inr r, s3) \<longrightarrow>
        sync_writes s3 = sync_writes s + nat (steps_of p))"
proof (intro conjI impI)
  assume "guard_bad cur mn mx axes = Inr bad"
  then show "set bad = {i \<in> set axes. \<exists>v. cur i = Some (Some v) \<and> (v < mn \<or> mx < v)}"
    by (rule guard_bad_set)
next
  assume "guard_check p k s = (Inr True, s1)"
  then show "\<exists>mn mx pos cur i v. current_guard p = Some (mn, mx) \<and> k mod max 1 (poll_hz p div 10) = 0
           \<and> bulk_read True s = (Inr (pos, cur), s1) \<and> i \<in> set (ids (cfg s1))
           \<and> cur i = Some (Some v) \<and> (v < mn \<or> mx < v)"
    by (rule guard_check_trip)
next
  assume a: "no_current s \<and> stream_loop p steps dt t0 sp g ks s = (Inr b, s2)"
  with stream_loop_no_current [of s p steps dt t0 sp g ks] show nb: "\<not> b" by auto
  with a show "sync_writes s2 = sync_writes s + length ks"
    using stream_loop_complete [of p steps dt t0 sp g ks s s2] by simp
next
  assume "no_current s \<and> execute_time_synced p s = Some (Inr r, s3)"
  then show "sync_writes s3 = sync_writes s + nat (steps_of p)"
    using execute_no_current_all_steps by blast
qed


text \<open>
  C10 at concrete inputs: readings at the bounds and an absent one do not trip, 301 does;
  a current of 500 trips the check of step 1; on the bus without current the guarded call
  sends all 10 waypoints.
\<close>

theorem guard_trips_only_on_present_current_witness:
  "guard_bad [1 \<mapsto> Some (- 300), 2 \<mapsto> None, 3 \<mapsto> Some 301, 4 \<mapsto> Some 300] (- 300) 300 [1, 2, 3, 4] = Inr [3]
   \<and> (\<exists>s1 pos cur i v. guard_check args_guard 1 world_trip = (Inr True, s1)
         \<and> bulk_read True world_trip = (Inr (pos, cur), s1) \<and> cur i = Some (Some v) \<and> (v < - 300 \<or> 300 < v))
   \<and> no_current world_c8
   \<and> (\<exists>r s3. execute_time_synced args_guard world_c8 = Some (Inr r, s3)
         \<and> sync_writes s3 = sync_writes world_c8 + nat (steps_of args_guard))
   \<and> current_guard args_guard = Some (- 300, 300) \<and> steps_of args_guard = 10"
proof -
  have gb: "guard_bad [1 \<mapsto> Some (- 300), 2 \<mapsto> None, 3 \<mapsto> Some 301, 4 \<mapsto> Some 300] (- 300) 300 [1, 2, 3, 4] = Inr [3]"
    by simp
  have "fst (guard_check args_guard 1 world_trip) = Inr True" by code_simp
  then obtain s1 where gc: "guard_check args_guard 1 world_trip = (Inr True, s1)"
    by (cases "guard_check args_guard 1 world_trip") simp
  have ag: "current_guard args_guard = Some (- 300, 300)" and st: "steps_of args_guard = 10"
    by (simp_all add: args_guard_def default_args_def steps_of_def py_int_def)
  have nc: "no_current world_c8"
    by (simp add: no_current_def world_c8_def init_def reply1_def reply_with_def cfg1_def LEN_2_def)
  have "map_option (\<lambda>(r, s'). map_sum id settled r) (execute_time_synced args_guard world_c8) = Some (Inr False)"
    by code_simp
  then obtain r s3 where ex: "execute_time_synced args_guard world_c8 = Some (Inr r, s3)"
    by (cases "execute_time_synced args_guard world_c8") (auto simp: map_sum_def split: sum.splits)
  from guard_trips_only_on_present_current [THEN conjunct2, THEN conjunct1, THEN mp, OF gc]
  obtain mn mx pos cur i v where "current_guard args_guard = Some (mn, mx)"
    "bulk_read True world_trip = (Inr (pos, cur), s1)" "cur i = Some (Some v)" "v < mn \<or> mx < v"
    by blast
  with ag gc have 2: "\<exists>s1 pos cur i v. guard_check args_guard 1 world_trip = (Inr True, s1)
         \<and> bulk_read True world_trip = (Inr (pos, cur), s1) \<and> cur i = Some (Some v) \<and> (v < - 300 \<or> 300 < v)"
    by auto
  have "sync_writes s3 = sync_writes world_c8 + nat (steps_of args_guard)"
    using guard_trips_only_on_present_current
      [THEN conjunct2, THEN conjunct2, THEN conjunct2, THEN mp, OF conjI [OF nc ex]] .
  with ex have 4: "\<exists>r s3. execute_time_synced args_guard world_c8 = Some (Inr r, s3)
         \<and> sync_writes s3 = sync_writes world_c8 + nat (steps_of args_guard)" by blast
  from gb 2 nc 4 ag st show ?thesis by blast
qed

subsection \<open>The current channel\<close>

























subsection \<open>The settle decision\<close>

lemma streak_from_0: "streak_from 0 eps n errs i = streak_ends_at eps n errs i"
  by (simp add: streak_from_def streak_ends_at_def)

lemma streak_from_head:
  "0 < n \<Longrightarrow> streak_from k eps n (e # es) 0 \<longleftrightarrow> n \<le> Suc k \<and> e \<le> eps"
  by (auto simp: streak_from_def)

lemma streak_from_good:
  assumes "e \<le> eps"
  shows "streak_from k eps n (e # es) (Suc i) \<longleftrightarrow> streak_from (Suc k) eps n es i"
proof -
  have "(\<forall>j \<in> {Suc (Suc i) - n ..< Suc (Suc i)}. (e # es) ! j \<le> eps)
      \<longleftrightarrow> (\<forall>j \<in> {Suc i - n ..< Suc i}. es ! j \<le> eps)" (is "?L \<longleftrightarrow> ?R")
  proof
    assume l: ?L
    show ?R
    proof
      fix j assume "j \<in> {Suc i - n ..< Suc i}"
      then have "Suc j \<in> {Suc (Suc i) - n ..< Suc (Suc i)}" by auto
      with l have "(e # es) ! Suc j \<le> eps" by blast
      then show "es ! j \<le> eps" by simp
    qed
  next
    assume r: ?R
    show ?L
    proof
      fix j assume j: "j \<in> {Suc (Suc i) - n ..< Suc (Suc i)}"
      show "(e # es) ! j \<le> eps"
      proof (cases j)
        case 0
        with assms show ?thesis by simp
      next
        case (Suc j')
        with j have "j' \<in> {Suc i - n ..< Suc i}" by auto
        with r Suc show ?thesis by simp
      qed
    qed
  qed
  then show ?thesis by (simp add: streak_from_def)
qed

lemma streak_from_bad:
  assumes "\<not> e \<le> eps"
  shows "streak_from k eps n (e # es) (Suc i) \<longleftrightarrow> streak_from 0 eps n es i"
proof (cases "n \<le> Suc i")
  case False
  then have z: "0 \<in> {Suc (Suc i) - n ..< Suc (Suc i)}" by auto
  have "\<not> (\<forall>j \<in> {Suc (Suc i) - n ..< Suc (Suc i)}. (e # es) ! j \<le> eps)"
  proof
    assume "\<forall>j \<in> {Suc (Suc i) - n ..< Suc (Suc i)}. (e # es) ! j \<le> eps"
    with z have "(e # es) ! 0 \<le> eps" by blast
    with assms show False by simp
  qed
  then have "\<not> streak_from k eps n (e # es) (Suc i)"
    by (simp add: streak_from_def)
  with False show ?thesis by (simp add: streak_from_def)
next
  case True
  have "(\<forall>j \<in> {Suc (Suc i) - n ..< Suc (Suc i)}. (e # es) ! j \<le> eps)
      \<longleftrightarrow> (\<forall>j \<in> {Suc i - n ..< Suc i}. es ! j \<le> eps)" (is "?L \<longleftrightarrow> ?R")
  proof
    assume l: ?L
    show ?R
    proof
      fix j assume "j \<in> {Suc i - n ..< Suc i}"
      with True have "Suc j \<in> {Suc (Suc i) - n ..< Suc (Suc i)}" by auto
      with l have "(e # es) ! Suc j \<le> eps" by blast
      then show "es ! j \<le> eps" by simp
    qed
  next
    assume r: ?R
    show ?L
    proof
      fix j assume j: "j \<in> {Suc (Suc i) - n ..< Suc (Suc i)}"
      with True obtain j' where j': "j = Suc j'" "j' \<in> {Suc i - n ..< Suc i}"
        by (cases j) auto
      with r show "(e # es) ! j \<le> eps" by simp
    qed
  qed
  with True show ?thesis by (simp add: streak_from_def)
qed


lemma bulk_read_succeeds:
  assumes "comm (bus_replies s (bus_reads s)) = COMM_SUCCESS"
    and "read_positions (cfg s) (bus_replies s (bus_reads s)) (ids (cfg s)) Map.empty = Inr pos"
  shows "\<exists>cur s'. bulk_read wc s = (Inr (pos, cur), s')"
  using assms
  by (auto simp: bulk_read_def Let_def split: if_splits sum.splits prod.splits)

lemma poll_err_Inr:
  assumes "poll_err c g r = Inr e"
  obtains pos where "comm r = COMM_SUCCESS" and "read_positions c r (ids c) Map.empty = Inr pos"
    and "max_abs_err g pos (ids c) = Inr e"
  using assms by (auto simp: poll_err_def split: if_splits sum.splits)


lemma polls_give_head:
  "polls_give s g deadline (e # es) \<Longrightarrow>
     clock s (clock_reads s) < deadline \<and> poll_err (cfg s) g (bus_replies s (bus_reads s)) = Inr e"
  by (auto simp: polls_give_def)

lemma polls_give_tail:
  assumes "polls_give s g deadline (e # es)" and "unchanged s s'"
    and "bus_reads s' = Suc (bus_reads s)" and "clock_reads s' = Suc (clock_reads s)"
  shows "polls_give s' g deadline es"
  unfolding polls_give_def
proof (intro allI impI)
  fix j assume "j < length es"
  then have "Suc j < length (e # es)" by simp
  with assms(1) have "clock s (clock_reads s + Suc j) < deadline
      \<and> poll_err (cfg s) g (bus_replies s (bus_reads s + Suc j)) = Inr ((e # es) ! Suc j)"
    unfolding polls_give_def by blast
  with assms(2-4) show "clock s' (clock_reads s' + j) < deadline
      \<and> poll_err (cfg s') g (bus_replies s' (bus_reads s' + j)) = Inr (es ! j)"
    by (simp add: unchanged_def)
qed

lemma sleep_fields:
  "unchanged s (sleep d s) \<and> bus_reads (sleep d s) = bus_reads s \<and> clock_reads (sleep d s) = clock_reads s"
  by (simp add: sleep_def unchanged_def)

lemma settle_loop_poll:
  assumes t: "clock s (clock_reads s) < deadline"
    and pe: "poll_err (cfg s) g (bus_replies s (bus_reads s)) = Inr e"
  shows "\<exists>pos cur s2.
      read_positions (cfg s) (bus_replies s (bus_reads s)) (ids (cfg s)) Map.empty = Inr pos
    \<and> max_abs_err g pos (ids (cfg s)) = Inr e
    \<and> unchanged s s2 \<and> bus_reads s2 = Suc (bus_reads s) \<and> clock_reads s2 = Suc (clock_reads s)
    \<and> (\<forall>k l. settle_loop p sp sc g eps deadline k l s =
       (if e \<le> eps then
          (if settle_n p \<le> k + 1 then Some (settled_result p (cfg s) sp sc g pos cur e, s2)
           else settle_loop p sp sc g eps deadline (k + 1) (Some e) (sleep (1 / of_int (max 5 (poll_hz p))) s2))
        else settle_loop p sp sc g eps deadline 0 (Some e) (sleep (1 / of_int (max 5 (poll_hz p))) s2)))"
proof -
  let ?s1 = "s\<lparr>clock_reads := Suc (clock_reads s)\<rparr>"
  have n: "now s = (clock s (clock_reads s), ?s1)" by (simp add: now_def)
  from pe obtain pos where c: "comm (bus_replies s (bus_reads s)) = COMM_SUCCESS"
    and rp: "read_positions (cfg s) (bus_replies s (bus_reads s)) (ids (cfg s)) Map.empty = Inr pos"
    and me: "max_abs_err g pos (ids (cfg s)) = Inr e"
    by (rule poll_err_Inr)
  from bulk_read_succeeds [of ?s1 pos True] c rp
  obtain cur s2 where b: "bulk_read True ?s1 = (Inr (pos, cur), s2)" by auto
  have u: "unchanged ?s1 s2" using b by (rule bulk_read_unchanged)
  then have u2: "unchanged s s2" by (simp add: unchanged_def)
  have cnt: "bus_reads s2 = Suc (bus_reads s)" "clock_reads s2 = Suc (clock_reads s)"
    using bulk_read_counts [OF b] by simp_all
  have c2: "cfg s2 = cfg s" using u2 by (simp add: unchanged_def)
  have eq: "settle_loop p sp sc g eps deadline k l s =
       (if e \<le> eps then
          (if settle_n p \<le> k + 1 then Some (settled_result p (cfg s) sp sc g pos cur e, s2)
           else settle_loop p sp sc g eps deadline (k + 1) (Some e) (sleep (1 / of_int (max 5 (poll_hz p))) s2))
        else settle_loop p sp sc g eps deadline 0 (Some e) (sleep (1 / of_int (max 5 (poll_hz p))) s2))" for k l
    by (subst settle_loop.simps) (simp add: n t b c2 me)
  from rp me u2 cnt eq show ?thesis by blast
qed

lemma settle_n_nat:
  "n = nat (max 1 (settle_n p)) \<Longrightarrow> settle_n p \<le> int k + 1 \<longleftrightarrow> n \<le> Suc k"
  by auto

lemma settle_loop_settles:
  assumes n: "n = nat (max 1 (settle_n p))"
  shows "k < n \<Longrightarrow> polls_give s g deadline errs \<Longrightarrow> streak_from k eps n errs i \<Longrightarrow>
     \<forall>i' < i. \<not> streak_from k eps n errs i' \<Longrightarrow>
     \<exists>pos cur s'.
        settle_loop p sp sc g eps deadline (int k) l s =
          Some (settled_result p (cfg s) sp sc g pos cur (errs ! i), s')
      \<and> bus_reads s' = bus_reads s + Suc i \<and> clock_reads s' = clock_reads s + Suc i
      \<and> unchanged s s'
      \<and> read_positions (cfg s) (bus_replies s (bus_reads s + i)) (ids (cfg s)) Map.empty = Inr pos
      \<and> max_abs_err g pos (ids (cfg s)) = Inr (errs ! i)"
proof (induction i arbitrary: k l s errs)
  case 0
  from n have n0: "0 < n" by simp
  from "0.prems"(3) obtain e es where errs: "errs = e # es"
    by (cases errs) (auto simp: streak_from_def)
  from "0.prems"(3) errs n0 have st: "n \<le> Suc k" "e \<le> eps" by (simp_all add: streak_from_head)
  from polls_give_head "0.prems"(2) errs
  have t: "clock s (clock_reads s) < deadline"
    and pe: "poll_err (cfg s) g (bus_replies s (bus_reads s)) = Inr e" by auto
  obtain pos cur s2 where
    rp: "read_positions (cfg s) (bus_replies s (bus_reads s)) (ids (cfg s)) Map.empty = Inr pos"
    and me: "max_abs_err g pos (ids (cfg s)) = Inr e"
    and u: "unchanged s s2" and cnt: "bus_reads s2 = Suc (bus_reads s)" "clock_reads s2 = Suc (clock_reads s)"
    and eq: "\<And>k l. settle_loop p sp sc g eps deadline k l s =
       (if e \<le> eps then
          (if settle_n p \<le> k + 1 then Some (settled_result p (cfg s) sp sc g pos cur e, s2)
           else settle_loop p sp sc g eps deadline (k + 1) (Some e) (sleep (1 / of_int (max 5 (poll_hz p))) s2))
        else settle_loop p sp sc g eps deadline 0 (Some e) (sleep (1 / of_int (max 5 (poll_hz p))) s2))"
    using settle_loop_poll [OF t pe, of p sp sc eps] by blast
  from st settle_n_nat [OF n, of k] have "settle_n p \<le> int k + 1" by simp
  with eq [of "int k" l] st have "settle_loop p sp sc g eps deadline (int k) l s =
      Some (settled_result p (cfg s) sp sc g pos cur e, s2)" by simp
  with rp me u cnt errs show ?case by auto
next
  case (Suc i)
  from n have n0: "0 < n" by simp
  from Suc.prems(3) obtain e es where errs: "errs = e # es"
    by (cases errs) (auto simp: streak_from_def)
  from Suc.prems(4) have not0: "\<not> streak_from k eps n errs 0" by simp
  from polls_give_head Suc.prems(2) errs
  have t: "clock s (clock_reads s) < deadline"
    and pe: "poll_err (cfg s) g (bus_replies s (bus_reads s)) = Inr e" by auto
  obtain pos cur s2 where
    u: "unchanged s s2" and cnt: "bus_reads s2 = Suc (bus_reads s)" "clock_reads s2 = Suc (clock_reads s)"
    and eq: "\<And>k l. settle_loop p sp sc g eps deadline k l s =
       (if e \<le> eps then
          (if settle_n p \<le> k + 1 then Some (settled_result p (cfg s) sp sc g pos cur e, s2)
           else settle_loop p sp sc g eps deadline (k + 1) (Some e) (sleep (1 / of_int (max 5 (poll_hz p))) s2))
        else settle_loop p sp sc g eps deadline 0 (Some e) (sleep (1 / of_int (max 5 (poll_hz p))) s2))"
    using settle_loop_poll [OF t pe, of p sp sc eps] by blast
  let ?s3 = "sleep (1 / of_int (max 5 (poll_hz p))) s2"
  have u3: "unchanged s ?s3" using u sleep_fields [of s2] by (blast intro: unchanged_trans)
  have cnt3: "bus_reads ?s3 = Suc (bus_reads s)" "clock_reads ?s3 = Suc (clock_reads s)"
    using cnt sleep_fields [of s2] by simp_all
  have pg: "polls_give ?s3 g deadline es"
    using Suc.prems(2) u3 cnt3 unfolding errs by (rule polls_give_tail)
  have c3: "cfg ?s3 = cfg s" "bus_replies ?s3 = bus_replies s" using u3 by (simp_all add: unchanged_def)
  show ?case
  proof (cases "e \<le> eps")
    case True
    with not0 errs n0 have kn: "\<not> n \<le> Suc k" by (simp add: streak_from_head)
    then have k1: "Suc k < n" by simp
    from kn settle_n_nat [OF n, of k] have sn: "\<not> settle_n p \<le> int k + 1" by simp
    have s1: "streak_from (Suc k) eps n es i"
      using Suc.prems(3) True unfolding errs by (simp add: streak_from_good)
    have m1: "\<forall>i' < i. \<not> streak_from (Suc k) eps n es i'"
    proof (intro allI impI)
      fix i' assume "i' < i"
      then have "\<not> streak_from k eps n (e # es) (Suc i')" using Suc.prems(4) errs by simp
      with True show "\<not> streak_from (Suc k) eps n es i'" by (simp add: streak_from_good)
    qed
    from Suc.IH [OF k1 pg s1 m1, of "Some e"] obtain pos' cur' s' where
      r: "settle_loop p sp sc g eps deadline (int (Suc k)) (Some e) ?s3 =
            Some (settled_result p (cfg ?s3) sp sc g pos' cur' (es ! i), s')"
      and f: "bus_reads s' = bus_reads ?s3 + Suc i" "clock_reads s' = clock_reads ?s3 + Suc i"
        "unchanged ?s3 s'"
        "read_positions (cfg ?s3) (bus_replies ?s3 (bus_reads ?s3 + i)) (ids (cfg ?s3)) Map.empty = Inr pos'"
        "max_abs_err g pos' (ids (cfg ?s3)) = Inr (es ! i)"
      by blast
    have "settle_loop p sp sc g eps deadline (int k) l s =
        settle_loop p sp sc g eps deadline (int k + 1) (Some e) ?s3"
      using eq [of "int k" l] True sn by simp
    also have "int k + 1 = int (Suc k)" by simp
    finally have "settle_loop p sp sc g eps deadline (int k) l s =
        Some (settled_result p (cfg s) sp sc g pos' cur' ((e # es) ! Suc i), s')"
      using r c3 by simp
    moreover have "unchanged s s'" using u3 f(3) by (rule unchanged_trans)
    ultimately show ?thesis using f c3 cnt3 errs by auto
  next
    case False
    have s1: "streak_from 0 eps n es i"
      using Suc.prems(3) False unfolding errs by (simp add: streak_from_bad)
    have m1: "\<forall>i' < i. \<not> streak_from 0 eps n es i'"
    proof (intro allI impI)
      fix i' assume "i' < i"
      then have "\<not> streak_from k eps n (e # es) (Suc i')" using Suc.prems(4) errs by simp
      with False show "\<not> streak_from 0 eps n es i'" by (simp add: streak_from_bad)
    qed
    from Suc.IH [OF n0 pg s1 m1, of "Some e"] obtain pos' cur' s' where
      r: "settle_loop p sp sc g eps deadline (int 0) (Some e) ?s3 =
            Some (settled_result p (cfg ?s3) sp sc g pos' cur' (es ! i), s')"
      and f: "bus_reads s' = bus_reads ?s3 + Suc i" "clock_reads s' = clock_reads ?s3 + Suc i"
        "unchanged ?s3 s'"
        "read_positions (cfg ?s3) (bus_replies ?s3 (bus_reads ?s3 + i)) (ids (cfg ?s3)) Map.empty = Inr pos'"
        "max_abs_err g pos' (ids (cfg ?s3)) = Inr (es ! i)"
      by blast
    have "settle_loop p sp sc g eps deadline (int k) l s =
        settle_loop p sp sc g eps deadline 0 (Some e) ?s3"
      using eq [of "int k" l] False by simp
    with r c3 have "settle_loop p sp sc g eps deadline (int k) l s =
        Some (settled_result p (cfg s) sp sc g pos' cur' ((e # es) ! Suc i), s')"
      by simp
    moreover have "unchanged s s'" using u3 f(3) by (rule unchanged_trans)
    ultimately show ?thesis using f c3 cnt3 errs by auto
  qed
qed


lemma settle_loop_no_streak:
  assumes n: "n = nat (max 1 (settle_n p))"
  shows "k < n \<Longrightarrow> polls_give s g deadline errs \<Longrightarrow>
     \<forall>i < length errs. \<not> streak_from k eps n errs i \<Longrightarrow>
     \<exists>k' l' s'.
        settle_loop p sp sc g eps deadline (int k) l s = settle_loop p sp sc g eps deadline (int k') l' s'
      \<and> k' < n \<and> unchanged s s'
      \<and> bus_reads s' = bus_reads s + length errs \<and> clock_reads s' = clock_reads s + length errs
      \<and> l' = (if errs = [] then l else Some (last errs))"
proof (induction errs arbitrary: k l s)
  case Nil
  have "settle_loop p sp sc g eps deadline (int k) l s = settle_loop p sp sc g eps deadline (int k) l s
      \<and> k < n \<and> unchanged s s \<and> bus_reads s = bus_reads s + length ([] :: int list)
      \<and> clock_reads s = clock_reads s + length ([] :: int list)
      \<and> l = (if ([] :: int list) = [] then l else Some (last []))"
    using Nil.prems(1) by (simp add: unchanged_refl)
  then show ?case by blast
next
  case (Cons e es)
  from n have n0: "0 < n" by simp
  from Cons.prems(3) have not0: "\<not> streak_from k eps n (e # es) 0" by auto
  from polls_give_head [OF Cons.prems(2)]
  have t: "clock s (clock_reads s) < deadline"
    and pe: "poll_err (cfg s) g (bus_replies s (bus_reads s)) = Inr e" by auto
  obtain pos cur s2 where
    u: "unchanged s s2" and cnt: "bus_reads s2 = Suc (bus_reads s)" "clock_reads s2 = Suc (clock_reads s)"
    and eq: "\<And>k l. settle_loop p sp sc g eps deadline k l s =
       (if e \<le> eps then
          (if settle_n p \<le> k + 1 then Some (settled_result p (cfg s) sp sc g pos cur e, s2)
           else settle_loop p sp sc g eps deadline (k + 1) (Some e) (sleep (1 / of_int (max 5 (poll_hz p))) s2))
        else settle_loop p sp sc g eps deadline 0 (Some e) (sleep (1 / of_int (max 5 (poll_hz p))) s2))"
    using settle_loop_poll [OF t pe, of p sp sc eps] by blast
  let ?s3 = "sleep (1 / of_int (max 5 (poll_hz p))) s2"
  have u3: "unchanged s ?s3" using u sleep_fields [of s2] by (blast intro: unchanged_trans)
  have cnt3: "bus_reads ?s3 = Suc (bus_reads s)" "clock_reads ?s3 = Suc (clock_reads s)"
    using cnt sleep_fields [of s2] by simp_all
  have pg: "polls_give ?s3 g deadline es"
    using Cons.prems(2) u3 cnt3 by (rule polls_give_tail)
  define k1 where "k1 = (if e \<le> eps then Suc k else 0)"
  have step: "settle_loop p sp sc g eps deadline (int k) l s =
      settle_loop p sp sc g eps deadline (int k1) (Some e) ?s3"
  proof (cases "e \<le> eps")
    case True
    with not0 n0 have "\<not> n \<le> Suc k" by (simp add: streak_from_head)
    with settle_n_nat [OF n, of k] have "\<not> settle_n p \<le> int k + 1" by simp
    with eq [of "int k" l] True
    have e1: "settle_loop p sp sc g eps deadline (int k) l s =
        settle_loop p sp sc g eps deadline (int k + 1) (Some e) ?s3" by simp
    have "int k1 = int k + 1" using True by (simp add: k1_def)
    with e1 show ?thesis by simp
  next
    case False
    then show ?thesis using eq [of "int k" l] by (simp add: k1_def)
  qed
  have k1n: "k1 < n"
  proof (cases "e \<le> eps")
    case True
    with not0 n0 have "\<not> n \<le> Suc k" by (simp add: streak_from_head)
    with True show ?thesis by (simp add: k1_def)
  next
    case False
    with n0 show ?thesis by (simp add: k1_def)
  qed
  have none: "\<forall>i < length es. \<not> streak_from k1 eps n es i"
  proof (intro allI impI)
    fix i assume "i < length es"
    with Cons.prems(3) have "\<not> streak_from k eps n (e # es) (Suc i)" by simp
    then show "\<not> streak_from k1 eps n es i"
      by (cases "e \<le> eps") (simp_all add: k1_def streak_from_good streak_from_bad)
  qed
  from Cons.IH [OF k1n pg none, of "Some e"] obtain k' l' s' where
    r: "settle_loop p sp sc g eps deadline (int k1) (Some e) ?s3 =
          settle_loop p sp sc g eps deadline (int k') l' s'"
    and f: "k' < n" "unchanged ?s3 s'" "bus_reads s' = bus_reads ?s3 + length es"
      "clock_reads s' = clock_reads ?s3 + length es"
      "l' = (if es = [] then Some e else Some (last es))"
    by blast
  have "settle_loop p sp sc g eps deadline (int k) l s = settle_loop p sp sc g eps deadline (int k') l' s'
      \<and> k' < n \<and> unchanged s s'
      \<and> bus_reads s' = bus_reads s + length (e # es) \<and> clock_reads s' = clock_reads s + length (e # es)
      \<and> l' = (if e # es = [] then l else Some (last (e # es)))"
    using step r f cnt3 unchanged_trans [OF u3 f(2)] by simp
  then show ?case by blast
qed

lemma timeout_result_not_settled:
  "timeout_result p sp sc g l s = (Inr r, s') \<Longrightarrow> \<not> settled r"
  by (auto simp: timeout_result_def split: sum.splits prod.splits option.splits if_splits)

lemma settled_result_settled:
  "settled_result p c sp sc g pos cur e = Inr r \<Longrightarrow>
     settled r \<and> final_pos r = pos \<and> final_current r = cur \<and> goal r = g
   \<and> max_err_ticks r = Some e \<and> ticks_to_deg c e = Inr (the (max_err_deg r)) \<and> max_err_deg r \<noteq> None"
  by (auto simp: settled_result_def split: sum.splits if_splits)

lemma settled_result_Inr:
  "ticks_per_rev c \<noteq> 0 \<Longrightarrow> \<exists>r. settled_result p c sp sc g pos cur e = Inr r"
  by (simp add: settled_result_def ticks_to_deg_def)

lemma settle_loop_bus_reads_mono:
  assumes "settle_loop p sp sc g eps deadline k l s = Some y"
  shows "bus_reads s \<le> bus_reads (snd y)"
proof (rule settle_loop_rel [OF assms, where R = "\<lambda>s s'. bus_reads s \<le> bus_reads s'"])
  show "bus_reads s \<le> bus_reads (snd (bulk_read True s))" for s
    using bulk_read_counts [of True s "fst (bulk_read True s)" "snd (bulk_read True s)"] by simp
qed (simp_all add: now_def sleep_def)

lemma settle_loop_settled_reads:
  assumes run: "settle_loop p sp sc g eps deadline k l s = Some (Inr r, s')" and st: "settled r"
  shows "bus_reads s < bus_reads s'"
proof -
  from run have "(case now s of
        (t, s1) \<Rightarrow>
          if t < deadline then
            (case bulk_read True s1 of
               (Inl e, s2) \<Rightarrow> Some (Inl e, s2)
             | (Inr (pos, cur), s2) \<Rightarrow>
                 (case max_abs_err g pos (ids (cfg s2)) of
                    Inl e \<Rightarrow> Some (Inl e, s2)
                  | Inr max_err \<Rightarrow>
                      if max_err \<le> eps then
                        (if k + 1 \<ge> settle_n p
                         then Some (settled_result p (cfg s2) sp sc g pos cur max_err, s2)
                         else settle_loop p sp sc g eps deadline (k + 1) (Some max_err)
                                (sleep (1 / of_int (max 5 (poll_hz p))) s2))
                      else settle_loop p sp sc g eps deadline 0 (Some max_err)
                             (sleep (1 / of_int (max 5 (poll_hz p))) s2)))
          else Some (timeout_result p sp sc g l s1)) = Some (Inr r, s')"
    by (subst (asm) settle_loop.simps)
  then show ?thesis
  proof (cases rule: settle_body_cases)
    case (timeout t s1)
    from timeout(3) [symmetric] st show ?thesis by (auto dest: timeout_result_not_settled)
  next
    case (read_failed t s1 e s2)
    then show ?thesis by simp
  next
    case (max_failed t s1 pos cur s2 e)
    then show ?thesis by simp
  next
    case (settled t s1 pos cur s2 max_err)
    from settled(1) have "bus_reads s1 = bus_reads s" by (auto simp: now_def)
    with bulk_read_counts [OF settled(3)] settled(7) show ?thesis by simp
  next
    case (again t s1 pos cur s2 max_err)
    from again(1) have "bus_reads s1 = bus_reads s" by (auto simp: now_def)
    with bulk_read_counts [OF again(3)] settle_loop_bus_reads_mono [OF again(7)]
    show ?thesis by (simp add: sleep_def)
  next
    case (reset t s1 pos cur s2 max_err)
    from reset(1) have "bus_reads s1 = bus_reads s" by (auto simp: now_def)
    with bulk_read_counts [OF reset(3)] settle_loop_bus_reads_mono [OF reset(6)]
    show ?thesis by (simp add: sleep_def)
  qed
qed

lemma settle_loop_deadline:
  assumes "\<not> clock s (clock_reads s) < deadline"
  shows "settle_loop p sp sc g eps deadline k l s =
           Some (timeout_result p sp sc g l (s\<lparr>clock_reads := Suc (clock_reads s)\<rparr>))"
  using assms by (subst settle_loop.simps) (simp add: now_def)

lemma execute_settling:
  assumes "bulk_read True s = (Inr (sp, sc), s1)"
    and "goal_dict (cmd_ticks s1) (ids (cfg s1)) Map.empty = Inr g" and "now s1 = (t0, s2)"
    and "stream_loop p (steps_of p) (dt_of p) t0 sp g [1..steps_of p] s2 = (Inr broke, s3)"
    and "now s3 = (t, s4)"
  shows "execute_time_synced p s =
           settle_loop p sp sc g (eps_ticks_of (cfg s1) p)
             (t + max (2 / 10) (duration_s p * timeout_factor p)) 0 None s4"
  using assms by (simp add: execute_time_synced_def Let_def)

text \<open>
  C2. Let the next polls of the settle phase start before the deadline and measure the
  maximum absolute tick errors \<open>errs\<close>, and let \<open>n\<close> be \<open>settle_n\<close> (at least 1). If
  poll \<open>i\<close> is the first poll at which a run of \<open>n\<close> consecutive polls within \<open>eps\<close>
  ends, the loop returns \<open>settled = True\<close> at that poll, after \<open>i + 1\<close> reads, with the
  error of that poll. If no such run ends within \<open>errs\<close>, no settled result is returned
  within those polls; and if the deadline has passed by then, the call returns and what
  it returns is not settled. An error above \<open>eps\<close> starts the count again, since the run
  must be consecutive.
\<close>

theorem settle_streak_decides:
  assumes polls: "polls_give s g deadline errs" and tpr: "ticks_per_rev (cfg s) \<noteq> 0"
    and n: "n = nat (max 1 (settle_n p))"
  shows
   "(streak_ends_at eps n errs i \<and> (\<forall>i' < i. \<not> streak_ends_at eps n errs i') \<longrightarrow>
       (\<exists>r s'. settle_loop p sp sc g eps deadline 0 l s = Some (Inr r, s') \<and> settled r
          \<and> bus_reads s' = bus_reads s + Suc i \<and> max_err_ticks r = Some (errs ! i)))
  \<and> ((\<forall>i < length errs. \<not> streak_ends_at eps n errs i) \<longrightarrow>
       (\<forall>r s'. settle_loop p sp sc g eps deadline 0 l s = Some (Inr r, s') \<and> settled r \<longrightarrow>
          bus_reads s + length errs < bus_reads s'))
  \<and> ((\<forall>i < length errs. \<not> streak_ends_at eps n errs i)
       \<and> \<not> clock s (clock_reads s + length errs) < deadline \<longrightarrow>
       (\<exists>res s'. settle_loop p sp sc g eps deadline 0 l s = Some (res, s')
          \<and> bus_reads s' \<le> bus_reads s + length errs + 1 \<and> (\<forall>r. res = Inr r \<longrightarrow> \<not> settled r)))"
proof (intro conjI impI)
  from n have n0: "0 < n" by simp
  {
    assume a: "streak_ends_at eps n errs i \<and> (\<forall>i' < i. \<not> streak_ends_at eps n errs i')"
    then have "streak_from 0 eps n errs i" "\<forall>i' < i. \<not> streak_from 0 eps n errs i'"
      by (simp_all add: streak_from_0)
    from settle_loop_settles [OF n n0 polls this, where sp = sp and sc = sc and l = l] obtain pos cur s' where
      r: "settle_loop p sp sc g eps deadline (int 0) l s =
            Some (settled_result p (cfg s) sp sc g pos cur (errs ! i), s')"
      and b: "bus_reads s' = bus_reads s + Suc i"
      by blast
    from settled_result_Inr [OF tpr, of p sp sc g pos cur "errs ! i"] obtain res where
      res: "settled_result p (cfg s) sp sc g pos cur (errs ! i) = Inr res" by blast
    from settled_result_settled [OF res] have "settled res" "max_err_ticks res = Some (errs ! i)"
      by simp_all
    with r res b
    show "\<exists>r s'. settle_loop p sp sc g eps deadline 0 l s = Some (Inr r, s') \<and> settled r
          \<and> bus_reads s' = bus_reads s + Suc i \<and> max_err_ticks r = Some (errs ! i)"
      by auto
  }
  {
    assume a: "\<forall>i < length errs. \<not> streak_ends_at eps n errs i"
    then have "\<forall>i < length errs. \<not> streak_from 0 eps n errs i" by (simp add: streak_from_0)
    from settle_loop_no_streak [OF n n0 polls this, where sp = sp and sc = sc and l = l] obtain k' l' s1 where
      e: "settle_loop p sp sc g eps deadline (int 0) l s = settle_loop p sp sc g eps deadline (int k') l' s1"
      and b: "bus_reads s1 = bus_reads s + length errs"
      by blast
    show "\<forall>r s'. settle_loop p sp sc g eps deadline 0 l s = Some (Inr r, s') \<and> settled r \<longrightarrow>
          bus_reads s + length errs < bus_reads s'"
    proof (intro allI impI)
      fix r s' assume "settle_loop p sp sc g eps deadline 0 l s = Some (Inr r, s') \<and> settled r"
      with e have "settle_loop p sp sc g eps deadline (int k') l' s1 = Some (Inr r, s')" "settled r"
        by simp_all
      from settle_loop_settled_reads [OF this] b show "bus_reads s + length errs < bus_reads s'"
        by simp
    qed
  }
  {
    assume a: "(\<forall>i < length errs. \<not> streak_ends_at eps n errs i)
       \<and> \<not> clock s (clock_reads s + length errs) < deadline"
    then have "\<forall>i < length errs. \<not> streak_from 0 eps n errs i" by (simp add: streak_from_0)
    from settle_loop_no_streak [OF n n0 polls this, where sp = sp and sc = sc and l = l] obtain k' l' s1 where
      e: "settle_loop p sp sc g eps deadline (int 0) l s = settle_loop p sp sc g eps deadline (int k') l' s1"
      and u: "unchanged s s1"
      and b: "bus_reads s1 = bus_reads s + length errs" "clock_reads s1 = clock_reads s + length errs"
      by blast
    from a u b have "\<not> clock s1 (clock_reads s1) < deadline" by (simp add: unchanged_def)
    from settle_loop_deadline [OF this, where p = p and sp = sp and sc = sc and g = g and eps = eps and k = "int k'" and l = l'] e
    have r: "settle_loop p sp sc g eps deadline 0 l s =
        Some (timeout_result p sp sc g l' (s1\<lparr>clock_reads := Suc (clock_reads s1)\<rparr>))"
      by simp
    obtain res s' where t: "timeout_result p sp sc g l' (s1\<lparr>clock_reads := Suc (clock_reads s1)\<rparr>) = (res, s')"
      by (cases "timeout_result p sp sc g l' (s1\<lparr>clock_reads := Suc (clock_reads s1)\<rparr>)")
    have "bus_reads s' \<le> Suc (bus_reads s1)"
      using t bulk_read_counts [of True "s1\<lparr>clock_reads := Suc (clock_reads s1)\<rparr>"]
      by (auto simp: timeout_result_def split: sum.splits prod.splits option.splits if_splits)
    moreover have "\<forall>r. res = Inr r \<longrightarrow> \<not> settled r"
      using t by (auto dest: timeout_result_not_settled)
    ultimately
    show "\<exists>res s'. settle_loop p sp sc g eps deadline 0 l s = Some (res, s')
          \<and> bus_reads s' \<le> bus_reads s + length errs + 1 \<and> (\<forall>r. res = Inr r \<longrightarrow> \<not> settled r)"
      using r t b by auto
  }
qed



lemma poll_err_reply1: "poll_err cfg1 [1 \<mapsto> 0] (reply1 x c) = Inr \<bar>int32 x\<bar>"
  by (simp add: poll_err_def reply1_def reply_with_def cfg1_def COMM_SUCCESS_def LEN_4_def
      max_abs_err_def)

lemma polls_a: "polls_give settle_a [1 \<mapsto> 0] 1 [5, 5, 1, 1, 1]"
  by (simp add: polls_give_def settle_a_def init_def bus_a_def play_def All_less_Suc
      poll_err_reply1 [unfolded cfg1_def] cfg1_def int32_def)

lemma polls_b: "polls_give settle_b [1 \<mapsto> 0] 1 [1, 1, 5, 1, 1]"
  by (simp add: polls_give_def settle_b_def init_def bus_b_def play_def All_less_Suc
      poll_err_reply1 [unfolded cfg1_def] cfg1_def int32_def)

lemma all_less_list: "(\<forall>i < n. P i) \<longleftrightarrow> list_all P [0..<n]"
  by (auto simp: list_all_iff)

text \<open>
  C2 on the two sequences of the claim, with \<open>eps = 2\<close> and \<open>settle_n = 3\<close>: 5, 5, 1, 1, 1
  settles at the fifth poll (index 4) and not before; 1, 1, 5, 1, 1 does not settle in five
  polls. The whole call on the same buses: settled after 6 reads, and not settled.
\<close>

theorem settle_streak_decides_witness:
  "polls_give settle_a [1 \<mapsto> 0] 1 [5, 5, 1, 1, 1] \<and> streak_ends_at 2 3 [5, 5, 1, 1, 1] 4
   \<and> \<not> streak_ends_at 2 3 [5, 5, 1, 1, 1] 3 \<and> \<not> streak_ends_at 2 3 [5, 5, 1, 1, 1] 2
   \<and> (\<exists>r s'. settle_loop args_c2 Map.empty Map.empty [1 \<mapsto> 0] 2 1 0 None settle_a = Some (Inr r, s')
         \<and> settled r \<and> bus_reads s' = 5 \<and> max_err_ticks r = Some 1)
   \<and> polls_give settle_b [1 \<mapsto> 0] 1 [1, 1, 5, 1, 1]
   \<and> (\<exists>res s'. settle_loop args_c2 Map.empty Map.empty [1 \<mapsto> 0] 2 1 0 None settle_b = Some (res, s')
         \<and> bus_reads s' \<le> 6 \<and> (\<forall>r. res = Inr r \<longrightarrow> \<not> settled r))
   \<and> eps_ticks_of cfg1 args_c2 = 2 \<and> settle_n args_c2 = 3
   \<and> map_option (\<lambda>(r, s'). (map_sum id settled r, bus_reads s')) (execute_time_synced args_c2 world_c2a)
       = Some (Inr True, 6)
   \<and> map_option (\<lambda>(r, s'). (map_sum id settled r, bus_reads s')) (execute_time_synced args_c2 world_c2b)
       = Some (Inr False, 7)"
proof -
  have n: "(3::nat) = nat (max 1 (settle_n args_c2))"
    and sn: "settle_n args_c2 = 3"
    by (simp_all add: args_c2_def default_args_def)
  have ta: "ticks_per_rev (cfg settle_a) \<noteq> 0" and tb: "ticks_per_rev (cfg settle_b) \<noteq> 0"
    and ra: "bus_reads settle_a = 0" and rb: "bus_reads settle_b = 0"
    and cb: "\<not> clock settle_b (clock_reads settle_b + length [1, 1, 5, 1, 1 :: int]) < 1"
    by (simp_all add: settle_a_def settle_b_def init_def cfg1_def play_def)
  have s4: "streak_ends_at 2 3 [5, 5, 1, 1, 1] 4" by code_simp
  have s3: "\<not> streak_ends_at 2 3 [5, 5, 1, 1, 1] 3" and s2: "\<not> streak_ends_at 2 3 [5, 5, 1, 1, 1] 2"
    by code_simp+
  have first: "\<forall>i' < 4. \<not> streak_ends_at 2 3 [5, 5, 1, 1, 1] i'"
    unfolding all_less_list by code_simp
  have none: "\<forall>i < length [1, 1, 5, 1, 1 :: int]. \<not> streak_ends_at 2 3 [1, 1, 5, 1, 1] i"
    unfolding all_less_list by code_simp
  from settle_streak_decides [OF polls_a ta n, where eps = 2 and i = 4 and sp = Map.empty
      and sc = Map.empty and l = None, THEN conjunct1] s4 first ra
  have a: "\<exists>r s'. settle_loop args_c2 Map.empty Map.empty [1 \<mapsto> 0] 2 1 0 None settle_a = Some (Inr r, s')
         \<and> settled r \<and> bus_reads s' = 5 \<and> max_err_ticks r = Some 1"
    by simp
  from settle_streak_decides [OF polls_b tb n, where eps = 2 and sp = Map.empty
      and sc = Map.empty and l = None, THEN conjunct2, THEN conjunct2] none cb rb
  have b: "\<exists>res s'. settle_loop args_c2 Map.empty Map.empty [1 \<mapsto> 0] 2 1 0 None settle_b = Some (res, s')
         \<and> bus_reads s' \<le> 6 \<and> (\<forall>r. res = Inr r \<longrightarrow> \<not> settled r)"
    by (simp add: eval_nat_numeral)
  have e: "eps_ticks_of cfg1 args_c2 = 2"
    by (simp add: eps_ticks_of_def args_c2_def default_args_def deg_to_ticks_def cfg1_def py_round_def)
  have xa: "map_option (\<lambda>(r, s'). (map_sum id settled r, bus_reads s')) (execute_time_synced args_c2 world_c2a)
       = Some (Inr True, 6)" by code_simp
  have xb: "map_option (\<lambda>(r, s'). (map_sum id settled r, bus_reads s')) (execute_time_synced args_c2 world_c2b)
       = Some (Inr False, 7)" by code_simp
  from polls_a s4 s3 s2 a polls_b b e sn xa xb show ?thesis by blast
qed

subsection \<open>The returned result\<close>






lemma goal_dict_map:
  "goal_dict cmd axes acc = Inr g \<Longrightarrow> g i = (if i \<in> set axes then cmd i else acc i)"
proof (induction axes arbitrary: acc)
  case Nil
  then show ?case by simp
next
  case (Cons a axes)
  from Cons.prems obtain t where t: "cmd a = Some t"
    and r: "goal_dict cmd axes (acc(a \<mapsto> t)) = Inr g"
    by (auto split: option.splits)
  from Cons.IH [OF r] t show ?case by auto
qed









end
